theory Spec2Isabelle
  imports Complex_Main "HOL-Library.Word" "HOL-Library.Log_Nat"
begin

unbundle bit_operations_syntax

section \<open>Data model of the semantic tokens buffer\<close>

text \<open>
  The embedding follows \<^verbatim>\<open>src/handler/semanticTokens/buffer.ts\<close>. Token values are
  unsigned integers (\<^verbatim>\<open>uinteger\<close>) and are written as \<open>nat\<close>; line numbers that
  come from the editor are \<open>int\<close>. The numbers the decoder computes are JavaScript
  numbers, that is IEEE 754 doubles: a \<open>jsnum\<close> is a natural that a double represents
  (\<open>Num\<close>), \<^verbatim>\<open>Infinity\<close> (a sum beyond the largest double), \<^verbatim>\<open>NaN\<close>, or
  \<^verbatim>\<open>undefined\<close> (a read past the end of the token array).
\<close>

datatype jsnum = Num nat | Infinity | NaN | Undefined

text \<open>
  The double nearest to a natural, ties to the even significand (the rounding of a
  numeric literal and of every addition). A double has a significand of 53 bits, so
  every natural up to \<open>2 ^ 53\<close> is a double; a larger one of \<open>k\<close> bits keeps its 53
  leading bits and loses the \<open>k - 53\<close> others; what rounds to \<open>2 ^ 1024\<close> or more is
  \<^verbatim>\<open>Infinity\<close>.
\<close>

definition js_round :: "nat \<Rightarrow> jsnum" where
  "js_round n =
     (if n \<le> 2 ^ 53 then Num n
      else (let e = floorlog 2 n - 53;
                q = n div 2 ^ e;
                r = n mod 2 ^ e;
                half = 2 ^ (e - 1);
                m = (if half < r \<or> (r = half \<and> odd q) then q + 1 else q)
            in if 2 ^ 1024 \<le> m * 2 ^ e then Infinity else Num (m * 2 ^ e)))"

text \<open>A line number of a decoded token is a number the decoder computed.\<close>

type_synonym TokenRange = "jsnum \<times> nat \<times> nat"

record SemanticTokensConfig =
  enable :: bool
  highlightPriority :: nat
  incrementTypes :: "string list"
  combinedModifiers :: "string list"

record SemanticTokenRange =
  trange :: TokenRange
  tokenType :: "string option"
  tokenModifiers :: "string list"
  hlGroup :: "string option"
  combine :: bool

record SemanticTokensLegend =
  tokenTypes :: "string list"
  legendModifiers :: "string list"

record StaticConfig =
  filetypes :: "string list option"
  highlightGroups :: "string list"

record HighlightItem =
  item_lnum :: jsnum
  item_hlGroup :: string
  item_colStart :: nat
  item_colEnd :: nat
  item_combine :: bool
  item_end_incl :: bool
  item_start_incl :: bool

text \<open>
  What the buffer reads from its collaborators. The helpers \<^verbatim>\<open>upperFirst\<close> and
  \<^verbatim>\<open>byteIndex\<close> (util/string), the document (\<^verbatim>\<open>getline\<close>, \<^verbatim>\<open>filetype\<close>,
  \<^verbatim>\<open>dirty\<close>, \<^verbatim>\<open>lineCount\<close>), the configuration, the editor (\<^verbatim>\<open>workspace.env\<close>), the
  provider registry (\<^verbatim>\<open>languages\<close>) and the two delays computed by
  \<^verbatim>\<open>getConditionValue\<close> are not part of the file; they are parameters of the model.
\<close>

record host =
  upperFirst :: "string option \<Rightarrow> string"
  byteIndex :: "string \<Rightarrow> jsnum \<Rightarrow> nat"
  getline :: "jsnum \<Rightarrow> string"
  config :: SemanticTokensConfig
  staticConfig :: StaticConfig
  filetype :: string
  docDirty :: bool
  lineCount :: int
  envLines :: int
  updateHighlight :: bool
  fullLegend :: "SemanticTokensLegend option"
  rangeLegend :: "SemanticTokensLegend option"
  hasFullProvider :: bool
  hasRangeProvider :: bool
  hasEditProvider :: bool
  debounceInterval :: nat
  requestDelay :: nat

definition HLGROUP_PREFIX :: string where
  "HLGROUP_PREFIX = ''CocSem''"

definition truthy :: "string option \<Rightarrow> bool" where
  "truthy s = (case s of None \<Rightarrow> False | Some t \<Rightarrow> t \<noteq> [])"

section \<open>Highlight group resolution: addHighlightItems\<close>

text \<open>First loop of addHighlightItems: CocSem + modifier + type, in the order of the modifiers.\<close>

fun modifierTypeGroup :: "host \<Rightarrow> string option \<Rightarrow> string list \<Rightarrow> (string \<times> bool) option" where
  "modifierTypeGroup h ty [] = None"
| "modifierTypeGroup h ty (item # rest) =
     (let hlGroup = HLGROUP_PREFIX @ upperFirst h (Some item) @ upperFirst h ty in
      if hlGroup \<in> set (highlightGroups (staticConfig h))
      then Some (hlGroup, item \<in> set (combinedModifiers (config h)))
      else modifierTypeGroup h ty rest)"

text \<open>Second loop: CocSem + modifier.\<close>

fun modifierGroup :: "host \<Rightarrow> string list \<Rightarrow> (string \<times> bool) option" where
  "modifierGroup h [] = None"
| "modifierGroup h (item # rest) =
     (let hlGroup = HLGROUP_PREFIX @ upperFirst h (Some item) in
      if hlGroup \<in> set (highlightGroups (staticConfig h))
      then Some (hlGroup, item \<in> set (combinedModifiers (config h)))
      else modifierGroup h rest)"

text \<open>
  The three stages of addHighlightItems, each guarded by \<^verbatim>\<open>!highlightGroup\<close>; the
  result is the pair (highlightGroup, combine).
\<close>

definition resolveGroup :: "host \<Rightarrow> string option \<Rightarrow> string list \<Rightarrow> string option \<times> bool" where
  "resolveGroup h ty mods =
     (let (highlightGroup, combine) =
            (case modifierTypeGroup h ty mods of
               Some (g, c) \<Rightarrow> (Some g, c)
             | None \<Rightarrow> (None, False));
          (highlightGroup, combine) =
            (if \<not> truthy highlightGroup
             then (case modifierGroup h mods of
                     Some (g, c) \<Rightarrow> (Some g, c)
                   | None \<Rightarrow> (highlightGroup, combine))
             else (highlightGroup, combine));
          highlightGroup =
            (if \<not> truthy highlightGroup
             then (let hlGroup = HLGROUP_PREFIX @ upperFirst h ty in
                   if hlGroup \<in> set (highlightGroups (staticConfig h))
                   then Some hlGroup else highlightGroup)
             else highlightGroup)
      in (highlightGroup, combine))"

definition addHighlightItems ::
  "host \<Rightarrow> SemanticTokenRange list \<Rightarrow> jsnum \<Rightarrow> jsnum \<Rightarrow> jsnum \<Rightarrow> string option \<Rightarrow> string list
     \<Rightarrow> SemanticTokenRange list" where
  "addHighlightItems h highlights lnum startCharacter endCharacter ty mods =
     (let (highlightGroup, cmb) = resolveGroup h ty mods;
          line = getline h lnum;
          colStart = byteIndex h line startCharacter;
          colEnd = byteIndex h line endCharacter
      in highlights @
         [\<lparr>trange = (lnum, colStart, colEnd), tokenType = ty, tokenModifiers = mods,
           hlGroup = highlightGroup, combine = cmb\<rparr>])"

text \<open>
  The comparisons \<^verbatim>\<open>lnum < startLine\<close> and \<^verbatim>\<open>lnum >= endLine\<close> of a computed
  number with a line of the editor: \<^verbatim>\<open>Infinity\<close> is above every line, and a
  comparison with \<^verbatim>\<open>NaN\<close> is false.
\<close>

definition js_less :: "jsnum \<Rightarrow> int \<Rightarrow> bool" where
  "js_less x k = (case x of Num n \<Rightarrow> int n < k | _ \<Rightarrow> False)"

definition js_greater_eq :: "jsnum \<Rightarrow> int \<Rightarrow> bool" where
  "js_greater_eq x k = (case x of Num n \<Rightarrow> k \<le> int n | Infinity \<Rightarrow> True | _ \<Rightarrow> False)"

text \<open>
  toHighlightItems: the optional line filter is \<open>Some (startLine, endLine)\<close> when both
  bounds are numbers.
\<close>

fun toHighlightItems ::
  "host \<Rightarrow> SemanticTokenRange list \<Rightarrow> (int \<times> int) option \<Rightarrow> HighlightItem list" where
  "toHighlightItems h [] flt = []"
| "toHighlightItems h (hi # rest) flt =
     (if \<not> truthy (hlGroup hi) then toHighlightItems h rest flt
      else (let lnum = fst (trange hi) in
        if (case flt of None \<Rightarrow> False
            | Some (startLine, endLine) \<Rightarrow> js_less lnum startLine \<or> js_greater_eq lnum endLine)
        then toHighlightItems h rest flt
        else (let incl = (case tokenType hi of None \<Rightarrow> False
                          | Some t \<Rightarrow> t \<in> set (incrementTypes (config h)))
              in \<lparr>item_lnum = lnum, item_hlGroup = the (hlGroup hi),
                  item_colStart = fst (snd (trange hi)), item_colEnd = snd (snd (trange hi)),
                  item_combine = combine hi, item_end_incl = incl, item_start_incl = incl\<rparr>
                 # toHighlightItems h rest flt)))"

section \<open>Token stream decoding: getTokenRanges\<close>

text \<open>
  \<^verbatim>\<open>tokens[i]\<close>: the number that the natural written at \<open>i\<close> denotes, and
  \<^verbatim>\<open>undefined\<close> past the end of the array.
\<close>

definition tok :: "nat list \<Rightarrow> nat \<Rightarrow> jsnum" where
  "tok ts i = (if i < length ts then js_round (ts ! i) else Undefined)"

text \<open>
  JavaScript \<^verbatim>\<open>+\<close> on these numbers: the exact sum of two doubles is rounded to a
  double; \<^verbatim>\<open>Infinity\<close> absorbs every number; the sum is \<^verbatim>\<open>NaN\<close> as soon as one
  operand is \<^verbatim>\<open>NaN\<close> or \<^verbatim>\<open>undefined\<close>.
\<close>

fun js_add :: "jsnum \<Rightarrow> jsnum \<Rightarrow> jsnum" where
  "js_add (Num a) (Num b) = js_round (a + b)"
| "js_add (Num a) Infinity = Infinity"
| "js_add Infinity (Num b) = Infinity"
| "js_add Infinity Infinity = Infinity"
| "js_add _ _ = NaN"

text \<open>
  \<^verbatim>\<open>tokens[i + 4] & (1 << m)\<close>: both operands are converted to 32-bit integers and the
  shift count is taken modulo 32; \<^verbatim>\<open>undefined\<close>, \<^verbatim>\<open>NaN\<close> and \<^verbatim>\<open>Infinity\<close>
  convert to 0.
\<close>

definition modifierBit :: "jsnum \<Rightarrow> nat \<Rightarrow> bool" where
  "modifierBit bits m =
     (case bits of
        Num b \<Rightarrow> ((word_of_nat b :: 32 word) AND push_bit (m mod 32) 1) \<noteq> 0
      | _ \<Rightarrow> False)"

text \<open>\<^verbatim>\<open>legend.tokenModifiers.filter((_, m) => tokens[i + 4] & (1 << m))\<close>\<close>

definition filterModifiers :: "string list \<Rightarrow> jsnum \<Rightarrow> string list" where
  "filterModifiers names bits =
     map fst (filter (\<lambda>(n, m). modifierBit bits m) (zip names [0..<length names]))"

text \<open>\<^verbatim>\<open>legend.tokenTypes[tokens[i + 3]]\<close>\<close>

definition typeName :: "string list \<Rightarrow> jsnum \<Rightarrow> string option" where
  "typeName names idx =
     (case idx of Num k \<Rightarrow> (if k < length names then Some (names ! k) else None)
      | _ \<Rightarrow> None)"

text \<open>
  One iteration of the loop of getTokenRanges on the remaining tokens \<open>grp\<close> (the
  group starts at their head): the new \<^verbatim>\<open>currentLine\<close>, the new
  \<^verbatim>\<open>currentCharacter\<close> and the extended list of highlights.
\<close>

definition decodeStep ::
  "host \<Rightarrow> SemanticTokensLegend \<Rightarrow> jsnum \<Rightarrow> jsnum \<Rightarrow> nat list \<Rightarrow> SemanticTokenRange list
     \<Rightarrow> jsnum \<times> jsnum \<times> SemanticTokenRange list" where
  "decodeStep h legend currentLine currentCharacter grp highlights =
     (let deltaLine = tok grp 0;
          deltaStartCharacter = tok grp 1;
          len = tok grp 2;
          ty = typeName (tokenTypes legend) (tok grp 3);
          mods = filterModifiers (legendModifiers legend) (tok grp 4);
          lnum = js_add currentLine deltaLine;
          startCharacter = (if deltaLine = Num 0 then js_add currentCharacter deltaStartCharacter
                            else deltaStartCharacter);
          endCharacter = js_add startCharacter len
      in (lnum, startCharacter,
          addHighlightItems h highlights lnum startCharacter endCharacter ty mods))"

text \<open>
  The world outside the decoder is a state \<open>'w\<close>; the cancellation token is a predicate
  on it. Whether 15 ms have passed at the head of an iteration is not determined by the
  program: each iteration consumes one tick, \<open>None\<close> when the clock test fails and
  \<open>Some f\<close> when the loop yields (\<^verbatim>\<open>await waitImmediate()\<close>) and the world moves by
  \<open>f\<close> before it resumes.
\<close>

definition yields :: "('w \<Rightarrow> 'w) option list \<Rightarrow> bool" where
  "yields ticks = (case ticks of Some f # _ \<Rightarrow> True | _ \<Rightarrow> False)"

definition resume :: "('w \<Rightarrow> 'w) option list \<Rightarrow> 'w \<Rightarrow> 'w" where
  "resume ticks w = (case ticks of Some f # _ \<Rightarrow> f w | _ \<Rightarrow> w)"

text \<open>
  The loop over the remaining tokens (\<^verbatim>\<open>i += 5\<close> drops five of them). After a yield
  the token is tested and the loop is left when it is cancelled.
\<close>

function decodeLoop ::
  "host \<Rightarrow> SemanticTokensLegend \<Rightarrow> ('w \<Rightarrow> bool) \<Rightarrow> ('w \<Rightarrow> 'w) option list \<Rightarrow> 'w
     \<Rightarrow> jsnum \<Rightarrow> jsnum \<Rightarrow> nat list \<Rightarrow> SemanticTokenRange list \<Rightarrow> 'w \<times> SemanticTokenRange list" where
  "decodeLoop h legend isCancelled ticks w currentLine currentCharacter [] highlights =
     (w, highlights)"
| "decodeLoop h legend isCancelled ticks w currentLine currentCharacter (t # ts) highlights =
     (if yields ticks \<and> isCancelled (resume ticks w) then (resume ticks w, highlights)
      else (case decodeStep h legend currentLine currentCharacter (t # ts) highlights of
              (lnum, startCharacter, highlights') \<Rightarrow>
                decodeLoop h legend isCancelled (tl ticks) (resume ticks w) lnum startCharacter
                  (drop 4 ts) highlights'))"
  by pat_completeness auto
termination
  by (relation "measure (\<lambda>(h, legend, isCancelled, ticks, w, l, c, ts, hs). length ts)") auto

text \<open>
  getTokenRanges: the cursor starts at (0, 0); the result is \<^verbatim>\<open>null\<close> (\<open>None\<close>) when
  the token is cancelled once the loop is over.
\<close>

definition getTokenRanges ::
  "host \<Rightarrow> nat list \<Rightarrow> SemanticTokensLegend \<Rightarrow> ('w \<Rightarrow> bool) \<Rightarrow> ('w \<Rightarrow> 'w) option list \<Rightarrow> 'w
     \<Rightarrow> 'w \<times> SemanticTokenRange list option" where
  "getTokenRanges h tokens legend isCancelled ticks w =
     (case decodeLoop h legend isCancelled ticks w (Num 0) (Num 0) tokens [] of
        (w', highlights) \<Rightarrow> if isCancelled w' then (w', None) else (w', Some highlights))"

text \<open>A cancellation token that is never cancelled (\<^verbatim>\<open>CancellationToken.None\<close>).\<close>

definition neverCancelled :: "'w \<Rightarrow> bool" where
  "neverCancelled w = False"

section \<open>Reference decoding\<close>

text \<open>
  The decoding as the specification words it: the array is cut into groups of five
  integers, a cursor (line, column) runs over them from (0, 0) with the sums of the
  integers, and a modifier name is kept when its bit is set in the group's bitmask.
\<close>

fun groupsOf :: "nat list \<Rightarrow> (nat \<times> nat \<times> nat \<times> nat \<times> nat) list" where
  "groupsOf (a # b # c # d # e # rest) = (a, b, c, d, e) # groupsOf rest"
| "groupsOf _ = []"

fun cursorDecode ::
  "nat \<Rightarrow> nat \<Rightarrow> (nat \<times> nat \<times> nat \<times> nat \<times> nat) list \<Rightarrow> (nat \<times> nat \<times> nat \<times> nat \<times> nat) list" where
  "cursorDecode line col [] = []"
| "cursorDecode line col ((deltaLine, deltaStartCol, len, ty, bits) # gs) =
     (let line' = line + deltaLine;
          col' = (if deltaLine = 0 then col + deltaStartCol else deltaStartCol);
          endCol = col' + len
      in (line', col', endCol, ty, bits) # cursorDecode line' col' gs)"

definition referenceSpan ::
  "host \<Rightarrow> SemanticTokensLegend \<Rightarrow> nat \<times> nat \<times> nat \<times> nat \<times> nat \<Rightarrow> SemanticTokenRange" where
  "referenceSpan h legend = (\<lambda>(line, col, endCol, ty, bits).
     (let names = legendModifiers legend;
          mods = map ((!) names) (filter (bit bits) [0..<length names]);
          tyName = (if ty < length (tokenTypes legend) then Some (tokenTypes legend ! ty) else None);
          text = getline h (Num line)
      in \<lparr>trange = (Num line, byteIndex h text (Num col), byteIndex h text (Num endCol)),
          tokenType = tyName, tokenModifiers = mods,
          hlGroup = fst (resolveGroup h tyName mods),
          combine = snd (resolveGroup h tyName mods)\<rparr>))"

definition referenceDecode :: "host \<Rightarrow> SemanticTokensLegend \<Rightarrow> nat list \<Rightarrow> SemanticTokenRange list" where
  "referenceDecode h legend tokens = map (referenceSpan h legend) (cursorDecode 0 0 (groupsOf tokens))"

section \<open>The buffer and its collaborators\<close>

record SemanticTokensPreviousResult =
  prev_version :: nat
  prev_resultId :: "string option"
  prev_tokens :: "nat list"

record SemanticTokensEdit =
  edit_start :: nat
  edit_deleteCount :: "nat option"
  edit_data :: "nat list option"

record RangeHighlights =
  rh_highlights :: "SemanticTokenRange list"
  rh_start :: int
  rh_end :: int

text \<open>What a provider answers: \<^verbatim>\<open>SemanticTokens\<close>, \<^verbatim>\<open>SemanticTokensDelta\<close> or nothing.\<close>

datatype reply =
    Tokens "string option" "nat list"
  | Delta "string option" "SemanticTokensEdit list"
  | NoResult

datatype thrown = CancellationError | TypeError | OtherError

datatype 'a settled = Resolved 'a | Rejected thrown

text \<open>The value the renderer's \<^verbatim>\<open>diffHighlights\<close> resolves to is opaque to the buffer.\<close>

datatype hldiff = HlDiff nat

text \<open>
  The calls the buffer makes to its collaborators, in the order it makes them. The
  messaging call \<^verbatim>\<open>window.showErrorMessage\<close> belongs to the imported \<^verbatim>\<open>window\<close>
  module; the buffer has no call site for it.
\<close>

datatype action =
    Eval_hidden
  | Visible_range
  | Visible_ranges
  | Provide_full
  | Provide_edits string
  | Provide_range int int
  | Diff_highlights "HighlightItem list" "(int \<times> int) option"
  | Apply_diff hldiff bool
  | Clear_namespace
  | Fire_refresh
  | Log_error
  | Show_error_message
  | Unhandled_rejection

text \<open>
  Modelled from the spec: the class \<^verbatim>\<open>Regions\<close> (model/regions) is not part of the
  file. The painted-region set is an ordered, non-overlapping sequence of intervals of
  lines, merged on insertion so that overlapping or adjacent intervals coalesce; a
  range counts as painted when one interval contains it; \<^verbatim>\<open>mergeSpans\<close> merges
  overlapping spans.
\<close>

type_synonym Regions = "(int \<times> int) list"

fun regions_insert :: "int \<times> int \<Rightarrow> Regions \<Rightarrow> Regions" where
  "regions_insert (s, e) [] = [(s, e)]"
| "regions_insert (s, e) ((a, b) # rs) =
     (if e < a then (s, e) # (a, b) # rs
      else if b < s then (a, b) # regions_insert (s, e) rs
      else regions_insert (min s a, max e b) rs)"

definition mergeSpans :: "(int \<times> int) list \<Rightarrow> (int \<times> int) list" where
  "mergeSpans spans = foldl (\<lambda>res r. regions_insert r res) [] spans"

definition regions_add :: "Regions \<Rightarrow> int \<Rightarrow> int \<Rightarrow> Regions" where
  "regions_add rs s e = regions_insert (s, e) rs"

definition regions_has :: "Regions \<Rightarrow> int \<Rightarrow> int \<Rightarrow> bool" where
  "regions_has rs s e = list_ex (\<lambda>(a, b). a \<le> s \<and> e \<le> b) rs"

definition regions_clear :: Regions where
  "regions_clear = []"

text \<open>
  The fields of SemanticTokensBuffer, together with what the model needs of the world
  around it: the cancellation token sources created so far (a source is its number;
  \<open>sources\<close> is the next free one), which of them are cancelled and which are disposed;
  the pending timer of the debounced \<^verbatim>\<open>highlight\<close> (its delay); the document's
  version; and the trace of calls to the collaborators.
\<close>

record engine =
  highlightsCache :: "(nat \<times> SemanticTokenRange list) option"
  dirty :: bool
  appliedVersion :: "nat option"
  regions :: Regions
  tokenSource :: "nat option"
  rangeTokenSource :: "nat option"
  previousResults :: "SemanticTokensPreviousResult option"
  timer :: "nat option"
  sources :: nat
  cancelledSources :: "nat list"
  disposedSources :: "nat list"
  docVersion :: nat
  trace :: "action list"

definition act :: "action \<Rightarrow> engine \<Rightarrow> engine" where
  "act a st = st\<lparr>trace := trace st @ [a]\<rparr>"

text \<open>\<^verbatim>\<open>new CancellationTokenSource()\<close>\<close>

definition newSource :: "engine \<Rightarrow> nat \<times> engine" where
  "newSource st = (sources st, st\<lparr>sources := Suc (sources st)\<rparr>)"

definition isCancellationRequested :: "nat \<Rightarrow> engine \<Rightarrow> bool" where
  "isCancellationRequested token st = (token \<in> set (cancelledSources st))"

definition cancelAndDispose :: "nat \<Rightarrow> engine \<Rightarrow> engine" where
  "cancelAndDispose src st =
     st\<lparr>cancelledSources := List.insert src (cancelledSources st),
        disposedSources := List.insert src (disposedSources st)\<rparr>"

section \<open>cancel, clearHighlight and the event handlers without suspension\<close>

definition cancel :: "bool \<Rightarrow> engine \<Rightarrow> engine" where
  "cancel rangeOnly st =
     (let st1 = (case rangeTokenSource st of
                   Some r \<Rightarrow> (cancelAndDispose r st)\<lparr>rangeTokenSource := None\<rparr>
                 | None \<Rightarrow> st)
      in if rangeOnly then st1
         else (let st2 = st1\<lparr>regions := regions_clear, timer := None\<rparr>
               in case tokenSource st2 of
                    Some t \<Rightarrow> (cancelAndDispose t st2)\<lparr>tokenSource := None\<rparr>
                  | None \<Rightarrow> st2))"

definition clearHighlight :: "engine \<Rightarrow> engine" where
  "clearHighlight st =
     act Clear_namespace (st\<lparr>previousResults := None, highlightsCache := None, regions := regions_clear\<rparr>)"

definition abandonResult :: "engine \<Rightarrow> engine" where
  "abandonResult st = st\<lparr>previousResults := None\<rparr>"

definition onTextChange :: "engine \<Rightarrow> engine" where
  "onTextChange st = cancel False st"

text \<open>\<^verbatim>\<open>onChange\<close>: \<^verbatim>\<open>this.highlight()\<close> arms the debounced pass with its default delay.\<close>

definition onChange :: "host \<Rightarrow> engine \<Rightarrow> engine" where
  "onChange h st = st\<lparr>timer := Some (debounceInterval h)\<rparr>"

text \<open>
  What may happen while a pass is suspended at an \<^verbatim>\<open>await\<close>: handlers of the same
  buffer that run without suspension, and the document moving to another version.
\<close>

datatype event =
    Ev_cancel bool
  | Ev_version nat
  | Ev_clearHighlight
  | Ev_abandonResult

fun runEvent :: "event \<Rightarrow> engine \<Rightarrow> engine" where
  "runEvent (Ev_cancel rangeOnly) st = cancel rangeOnly st"
| "runEvent (Ev_version v) st = st\<lparr>docVersion := v\<rparr>"
| "runEvent Ev_clearHighlight st = clearHighlight st"
| "runEvent Ev_abandonResult st = abandonResult st"

definition runEvents :: "event list \<Rightarrow> engine \<Rightarrow> engine" where
  "runEvents evs st = fold runEvent evs st"

definition engineTicks :: "event list option list \<Rightarrow> (engine \<Rightarrow> engine) option list" where
  "engineTicks ticks = map (map_option runEvents) ticks"

section \<open>The getters\<close>

definition configEnabled :: "host \<Rightarrow> bool" where
  "configEnabled h =
     (case filetypes (staticConfig h) of
        Some fts \<Rightarrow> ''*'' \<in> set fts \<or> filetype h \<in> set fts
      | None \<Rightarrow> enable (config h))"

definition hasProvider :: "host \<Rightarrow> bool" where
  "hasProvider h = (hasFullProvider h \<or> hasRangeProvider h)"

definition hasLegend :: "host \<Rightarrow> bool" where
  "hasLegend h = (fullLegend h \<noteq> None \<or> rangeLegend h \<noteq> None)"

definition rangeProviderOnly :: "host \<Rightarrow> bool" where
  "rangeProviderOnly h = (\<not> hasFullProvider h \<and> hasRangeProvider h)"

definition shouldRangeHighlight :: "host \<Rightarrow> engine \<Rightarrow> bool" where
  "shouldRangeHighlight h st = (hasRangeProvider h \<and> previousResults st = None)"

definition enabled :: "host \<Rightarrow> bool" where
  "enabled h = (if \<not> configEnabled h \<or> \<not> updateHighlight h \<or> \<not> hasLegend h then False
                else hasProvider h)"

text \<open>The getter \<^verbatim>\<open>highlights\<close>: the cached spans when they are of the document's version.\<close>

definition get_highlights :: "engine \<Rightarrow> SemanticTokenRange list option" where
  "get_highlights st =
     (case highlightsCache st of
        None \<Rightarrow> None
      | Some (v, spans) \<Rightarrow> if v = docVersion st then Some spans else None)"

section \<open>sendRequest\<close>

text \<open>
  sendRequest awaits \<^verbatim>\<open>fn()\<close>; the argument is the state \<^verbatim>\<open>fn\<close> leaves together with
  how its promise settled. A \<^verbatim>\<open>null\<close> result and \<^verbatim>\<open>undefined\<close> are both \<open>None\<close>.
\<close>

definition sendRequest :: "host \<Rightarrow> nat \<Rightarrow> engine \<times> 'a option settled \<Rightarrow> engine \<times> 'a option" where
  "sendRequest h token settledFn =
     (case settledFn of
        (st, Resolved r) \<Rightarrow> (st, r)
      | (st, Rejected e) \<Rightarrow>
          (if \<not> isCancellationRequested token st
           then (if e = CancellationError
                 then (st\<lparr>timer := Some (requestDelay h)\<rparr>, None)
                 else (act Log_error st, None))
           else (st, None)))"

section \<open>Decoding with the registry's legend\<close>

text \<open>
  \<^verbatim>\<open>languages.getLegend\<close> may return nothing; then \<^verbatim>\<open>legend.tokenTypes\<close> throws a
  TypeError in the first iteration that gets to it.
\<close>

definition getTokenRangesWith ::
  "host \<Rightarrow> nat list \<Rightarrow> SemanticTokensLegend option \<Rightarrow> ('w \<Rightarrow> bool) \<Rightarrow> ('w \<Rightarrow> 'w) option list \<Rightarrow> 'w
     \<Rightarrow> 'w \<times> SemanticTokenRange list option settled" where
  "getTokenRangesWith h tokens legend isCancelled ticks w =
     (case legend of
        Some lg \<Rightarrow> (case getTokenRanges h tokens lg isCancelled ticks w of (w', r) \<Rightarrow> (w', Resolved r))
      | None \<Rightarrow>
          (if tokens = [] then (w, Resolved (if isCancelled w then None else Some []))
           else if yields ticks \<and> isCancelled (resume ticks w) then (resume ticks w, Resolved None)
           else (resume ticks w, Rejected TypeError)))"

section \<open>requestAllHighlights\<close>

text \<open>\<^verbatim>\<open>tokens.splice(e.start, e.deleteCount ? e.deleteCount : 0, ...(e.data ?? []))\<close>\<close>

definition spliceEdit :: "SemanticTokensEdit \<Rightarrow> nat list \<Rightarrow> nat list" where
  "spliceEdit e tokens =
     (let deleteCount = (case edit_deleteCount e of Some n \<Rightarrow> n | None \<Rightarrow> 0);
          data = (case edit_data e of Some d \<Rightarrow> d | None \<Rightarrow> [])
      in take (edit_start e) tokens @ data @ drop (edit_start e + deleteCount) tokens)"

record full_oracle =
  fullReply :: "reply settled"
  fullReply_evs :: "event list"
  fullTicks :: "event list option list"

definition replyId :: "reply \<Rightarrow> string option" where
  "replyId r = (case r of Tokens rid data \<Rightarrow> rid | Delta rid edits \<Rightarrow> rid | NoResult \<Rightarrow> None)"

definition requestAllHighlights ::
  "host \<Rightarrow> nat \<Rightarrow> bool \<Rightarrow> full_oracle \<Rightarrow> engine \<Rightarrow> engine \<times> SemanticTokenRange list option settled" where
  "requestAllHighlights h token forceFull fo st =
     (let legend = fullLegend h;
          hasEdit = hasEditProvider h;
          previousResult = (if forceFull then None else previousResults st);
          version = docVersion st;
          st1 = (case previousResult of
                   Some pr \<Rightarrow> if hasEdit \<and> truthy (prev_resultId pr)
                              then act (Provide_edits (the (prev_resultId pr))) st
                              else act Provide_full st
                 | None \<Rightarrow> act Provide_full st);
          st2 = runEvents (fullReply_evs fo) st1
      in case fullReply fo of
           Rejected e \<Rightarrow> (st2, Rejected e)
         | Resolved result \<Rightarrow>
             if isCancellationRequested token st2 \<or> result = NoResult then (st2, Resolved None)
             else
              (let tokens = (case result of
                               Tokens rid data \<Rightarrow> data
                             | Delta rid edits \<Rightarrow>
                                 (case previousResult of
                                    Some pr \<Rightarrow> fold spliceEdit edits (prev_tokens pr)
                                  | None \<Rightarrow> [])
                             | NoResult \<Rightarrow> []);
                   st3 = st2\<lparr>previousResults :=
                              Some \<lparr>prev_version = version, prev_resultId = replyId result,
                                    prev_tokens = tokens\<rparr>\<rparr>
               in getTokenRangesWith h tokens legend (isCancellationRequested token)
                    (engineTicks (fullTicks fo)) st3))"

section \<open>Range highlights\<close>

record range_oracle =
  regionReply :: "(int \<times> int) option"
  region_evs :: "event list"
  rangeReply :: "reply settled"
  rangeReply_evs :: "event list"
  rangeTicks :: "event list option list"
  rangeDiff :: "hldiff option"
  rangeDiff_evs :: "event list"
  rangeApply_evs :: "event list"

text \<open>
  \<^verbatim>\<open>Range.create\<close> of the protocol types (a library, not part of the file) accepts
  four numbers only when each is an unsigned integer of the protocol, from 0 to
  \<open>2 ^ 31 - 1\<close>, and throws an error otherwise. The two characters are 0 here, so it is
  a test of the two lines.
\<close>

definition rangeCreate :: "int \<Rightarrow> int \<Rightarrow> (int \<times> int) option" where
  "rangeCreate startLine endLine =
     (if 0 \<le> startLine \<and> startLine \<le> 2147483647 \<and> 0 \<le> endLine \<and> endLine \<le> 2147483647
      then Some (startLine, endLine) else None)"

text \<open>
  requestRangeHighlights: an error thrown by \<^verbatim>\<open>Range.create\<close> rejects the promise
  before the provider is asked.
\<close>

definition requestRangeHighlights ::
  "host \<Rightarrow> nat \<Rightarrow> range_oracle \<Rightarrow> engine \<Rightarrow> engine \<times> RangeHighlights option settled" where
  "requestRangeHighlights h token ro st =
     (let st1 = runEvents (region_evs ro) (act Visible_range st)
      in case regionReply ro of
           None \<Rightarrow> (st1, Resolved None)
         | Some region \<Rightarrow>
             if isCancellationRequested token st1 then (st1, Resolved None)
             else
              (let endLine = min (fst region + envLines h * 2) (snd region)
               in case rangeCreate (fst region - 1) endLine of
                 None \<Rightarrow> (st1, Rejected OtherError)
               | Some (rangeStart, rangeEnd) \<Rightarrow>
               (let st2 = runEvents (rangeReply_evs ro) (act (Provide_range rangeStart rangeEnd) st1)
               in case rangeReply ro of
                    Rejected e \<Rightarrow> (st2, Rejected e)
                  | Resolved (Tokens rid data) \<Rightarrow>
                      if isCancellationRequested token st2 then (st2, Resolved None)
                      else
                       (case getTokenRangesWith h data (rangeLegend h) (isCancellationRequested token)
                               (engineTicks (rangeTicks ro)) st2 of
                          (st3, Rejected e) \<Rightarrow> (st3, Rejected e)
                        | (st3, Resolved None) \<Rightarrow> (st3, Resolved None)
                        | (st3, Resolved (Some spans)) \<Rightarrow>
                            if isCancellationRequested token st3 then (st3, Resolved None)
                            else (st3, Resolved (Some \<lparr>rh_highlights = spans, rh_start = fst region - 1,
                                                        rh_end = snd region\<rparr>)))
                  | Resolved _ \<Rightarrow> (st2, Resolved None))))"

text \<open>
  The merge of doRangeHighlight: a span of the range result is pushed to the cached
  list unless its line is already used there (the set of used lines is computed once,
  before the pushes).
\<close>

definition mergeRangeHighlights ::
  "SemanticTokenRange list \<Rightarrow> SemanticTokenRange list \<Rightarrow> SemanticTokenRange list" where
  "mergeRangeHighlights tokenRanges spans =
     tokenRanges @ filter (\<lambda>hi. fst (trange hi) \<notin> set (map (\<lambda>c. fst (trange c)) tokenRanges)) spans"

definition doRangeHighlight :: "host \<Rightarrow> nat \<Rightarrow> range_oracle \<Rightarrow> engine \<Rightarrow> engine" where
  "doRangeHighlight h token ro st =
     (if \<not> enabled h then st
      else
       (let version = docVersion st
        in case sendRequest h token (requestRangeHighlights h token ro st) of
             (st1, None) \<Rightarrow> st1
           | (st1, Some res) \<Rightarrow>
               if isCancellationRequested token st1 then st1
               else
                (let st2 = (if rangeProviderOnly h \<or> previousResults st1 = None
                            then (let tokenRanges =
                                        (case highlightsCache st1 of
                                           Some (v, spans) \<Rightarrow> if version \<noteq> v then [] else spans
                                         | None \<Rightarrow> [])
                                  in st1\<lparr>highlightsCache :=
                                           Some (version, mergeRangeHighlights tokenRanges (rh_highlights res))\<rparr>)
                            else st1);
                     items = toHighlightItems h (rh_highlights res) None;
                     st3 = runEvents (rangeDiff_evs ro)
                             (act (Diff_highlights items (Some (rh_start res, rh_end res))) st2)
                 in case rangeDiff ro of
                      None \<Rightarrow> st3
                    | Some d \<Rightarrow> (runEvents (rangeApply_evs ro) (act (Apply_diff d True) st3))\<lparr>dirty := True\<rparr>)))"

section \<open>highlightRegions\<close>

record regions_oracle =
  visibleRanges :: "(int \<times> int) list"
  visibleRanges_evs :: "event list"
  regionDiffs :: "(hldiff option \<times> event list) list"

text \<open>
  The expansion of one visible span:
  \<^verbatim>\<open>o[0] = Math.max(0, Math.floor(s - height * 1.5))\<close> and
  \<^verbatim>\<open>o[1] = Math.min(lineCount, Math.ceil(o[1] + height * 1.5), s + height * 2)\<close>.
\<close>

definition expandSpan :: "host \<Rightarrow> int \<times> int \<Rightarrow> int \<times> int" where
  "expandSpan h o' =
     (let s = fst o';
          height = envLines h
      in (max 0 \<lfloor>real_of_int s - real_of_int height * 1.5\<rfloor>,
          min (lineCount h) (min \<lceil>real_of_int (snd o') + real_of_int height * 1.5\<rceil> (s + height * 2))))"

text \<open>
  The loop over the merged spans; each span that is not skipped consumes one answer of
  the renderer's diff (nothing and no event when the answers run out).
\<close>

fun regionsLoop ::
  "host \<Rightarrow> nat \<Rightarrow> bool \<Rightarrow> SemanticTokenRange list \<Rightarrow> (int \<times> int) list
     \<Rightarrow> (hldiff option \<times> event list) list \<Rightarrow> engine \<Rightarrow> engine" where
  "regionsLoop h token skipCheck spans [] answers st = st"
| "regionsLoop h token skipCheck spans ((start, stop) # rest) answers st =
     (if \<not> skipCheck \<and> regions_has (regions st) start stop
      then regionsLoop h token skipCheck spans rest answers st
      else
       (let items = toHighlightItems h spans (Some (start, stop));
            diff = (case answers of [] \<Rightarrow> None | d # _ \<Rightarrow> fst d);
            evs = (case answers of [] \<Rightarrow> [] | d # _ \<Rightarrow> snd d);
            st1 = runEvents evs (act (Diff_highlights items (Some (start, stop))) st)
        in if isCancellationRequested token st1 then st1
           else
            (let st2 = st1\<lparr>regions := regions_add (regions st1) start stop\<rparr>;
                 st3 = (case diff of Some d \<Rightarrow> act (Apply_diff d True) st2 | None \<Rightarrow> st2)
             in regionsLoop h token skipCheck spans rest (tl answers) st3)))"

definition highlightRegions :: "host \<Rightarrow> nat \<Rightarrow> bool \<Rightarrow> regions_oracle \<Rightarrow> engine \<Rightarrow> engine" where
  "highlightRegions h token skipCheck rg st =
     (case get_highlights st of
        None \<Rightarrow> st
      | Some spans \<Rightarrow>
          (let st1 = runEvents (visibleRanges_evs rg) (act Visible_ranges st)
           in if isCancellationRequested token st1 \<or> visibleRanges rg = [] then st1
              else regionsLoop h token skipCheck spans
                     (mergeSpans (map (expandSpan h) (visibleRanges rg))) (regionDiffs rg) st1))"

section \<open>doHighlight\<close>

record pass_oracle =
  hiddenReply :: bool
  hidden_evs :: "event list"
  rangePass :: range_oracle
  fullPass :: full_oracle
  diffReply :: "hldiff option"
  diff_evs :: "event list"
  apply_evs :: "event list"
  regionsPass :: regions_oracle

text \<open>\<^verbatim>\<open>if (tokenRanges) this._highlights = [version, tokenRanges]\<close>\<close>

definition storeTokenRanges :: "nat \<Rightarrow> SemanticTokenRange list option \<Rightarrow> engine \<Rightarrow> engine" where
  "storeTokenRanges version tokenRanges st =
     (case tokenRanges of
        Some spans \<Rightarrow> st\<lparr>highlightsCache := Some (version, spans)\<rparr>
      | None \<Rightarrow> st)"

text \<open>
  The branch on \<^verbatim>\<open>version === this.previousResults?.version\<close>: the cached spans, the
  cached raw tokens decoded again, or a request to the provider.
\<close>

definition fetchTokenRanges ::
  "host \<Rightarrow> nat \<Rightarrow> bool \<Rightarrow> nat \<Rightarrow> full_oracle \<Rightarrow> engine
     \<Rightarrow> engine \<times> SemanticTokenRange list option settled" where
  "fetchTokenRanges h token forceFull version fo st =
     (case previousResults st of
        Some pr \<Rightarrow>
          if version = prev_version pr
          then (case highlightsCache st of
                  Some (v, spans) \<Rightarrow>
                    if v = version then (st, Resolved (Some spans))
                    else (case getTokenRangesWith h (prev_tokens pr) (fullLegend h)
                                 (isCancellationRequested token) (engineTicks (fullTicks fo)) st of
                            (st1, Rejected e) \<Rightarrow> (st1, Rejected e)
                          | (st1, Resolved r) \<Rightarrow> (storeTokenRanges version r st1, Resolved r))
                | None \<Rightarrow>
                    (case getTokenRangesWith h (prev_tokens pr) (fullLegend h)
                            (isCancellationRequested token) (engineTicks (fullTicks fo)) st of
                       (st1, Rejected e) \<Rightarrow> (st1, Rejected e)
                     | (st1, Resolved r) \<Rightarrow> (storeTokenRanges version r st1, Resolved r)))
          else (case sendRequest h token (requestAllHighlights h token forceFull fo st) of
                  (st1, r) \<Rightarrow> (storeTokenRanges version r st1, Resolved r))
      | None \<Rightarrow>
          (case sendRequest h token (requestAllHighlights h token forceFull fo st) of
             (st1, r) \<Rightarrow> (storeTokenRanges version r st1, Resolved r)))"

text \<open>The whole-document strategy: diff all items, then apply.\<close>

definition applyWholeDocument ::
  "host \<Rightarrow> nat \<Rightarrow> nat \<Rightarrow> SemanticTokenRange list \<Rightarrow> pass_oracle \<Rightarrow> engine \<Rightarrow> engine" where
  "applyWholeDocument h token version tokenRanges orc st =
     (let items = toHighlightItems h tokenRanges None;
          st1 = runEvents (diff_evs orc) (act (Diff_highlights items None) st)
      in if isCancellationRequested token st1 \<or> diffReply orc = None then st1
         else act Fire_refresh
                (runEvents (apply_evs orc)
                   (act (Apply_diff (the (diffReply orc)) False)
                      (st1\<lparr>dirty := True, appliedVersion := Some version\<rparr>))))"

text \<open>The strategy by regions: the painted-region record is cleared first.\<close>

definition applyVisibleRegions :: "host \<Rightarrow> nat \<Rightarrow> pass_oracle \<Rightarrow> engine \<Rightarrow> engine" where
  "applyVisibleRegions h token orc st =
     act Fire_refresh (highlightRegions h token False (regionsPass orc) (st\<lparr>regions := regions_clear\<rparr>))"

definition applyTokenRanges ::
  "host \<Rightarrow> nat \<Rightarrow> nat \<Rightarrow> SemanticTokenRange list option \<Rightarrow> pass_oracle \<Rightarrow> engine \<Rightarrow> engine" where
  "applyTokenRanges h token version tokenRanges orc st =
     (case tokenRanges of
        None \<Rightarrow> st
      | Some spans \<Rightarrow>
          if isCancellationRequested token st then st
          else if \<not> dirty st \<or> length spans < 200
               then applyWholeDocument h token version spans orc st
               else applyVisibleRegions h token orc st)"

definition doHighlight :: "host \<Rightarrow> bool \<Rightarrow> bool \<Rightarrow> pass_oracle \<Rightarrow> engine \<Rightarrow> engine" where
  "doHighlight h forceFull onShown orc st0 =
     (let st = cancel False st0
      in if \<not> enabled h then st
         else
          (let token = fst (newSource st);
               st1 = (snd (newSource st))\<lparr>tokenSource := Some token\<rparr>;
               st2 = (if onShown then st1 else runEvents (hidden_evs orc) (act Eval_hidden st1))
           in if \<not> onShown \<and> (hiddenReply orc \<or> isCancellationRequested token st2) then st2
              else
               (let ranged = shouldRangeHighlight h st2;
                    st3 = (if ranged
                           then doRangeHighlight h (fst (newSource st2)) (rangePass orc)
                                  ((snd (newSource st2))\<lparr>rangeTokenSource := Some (fst (newSource st2))\<rparr>)
                           else st2)
                in if ranged \<and> (isCancellationRequested token st3 \<or> rangeProviderOnly h) then st3
                   else
                    (let version = docVersion st3
                     in case fetchTokenRanges h token forceFull version (fullPass orc) st3 of
                          (st4, Rejected e) \<Rightarrow> act Unhandled_rejection st4
                        | (st4, Resolved tokenRanges) \<Rightarrow>
                            applyTokenRanges h token version tokenRanges orc st4))))"

section \<open>The other entry points\<close>

definition forceHighlight :: "host \<Rightarrow> pass_oracle \<Rightarrow> engine \<Rightarrow> engine" where
  "forceHighlight h orc st = doHighlight h True False orc (cancel False (clearHighlight st))"

definition dispose :: "engine \<Rightarrow> engine" where
  "dispose st = clearHighlight (cancel False st)"

text \<open>The handler \<^verbatim>\<open>onShown\<close> (its name is taken by the flag of doHighlight).\<close>

definition onShownHandler :: "host \<Rightarrow> pass_oracle \<Rightarrow> engine \<Rightarrow> engine" where
  "onShownHandler h orc st =
     (if shouldRangeHighlight h st then st
      else if docDirty h \<or> Some (docVersion st) = appliedVersion st then st
      else doHighlight h False True orc st)"

record cursor_oracle =
  wait_evs :: "event list"
  cursorRange :: range_oracle
  cursorRegions :: regions_oracle

definition onCursorMoved :: "host \<Rightarrow> cursor_oracle \<Rightarrow> engine \<Rightarrow> engine" where
  "onCursorMoved h co st0 =
     (let st = cancel True st0
      in if \<not> enabled h \<or> docDirty h then st
         else
          (let token = fst (newSource st);
               st1 = runEvents (wait_evs co) ((snd (newSource st))\<lparr>rangeTokenSource := Some token\<rparr>)
           in if isCancellationRequested token st1 then st1
              else if shouldRangeHighlight h st1 then doRangeHighlight h token (cursorRange co) st1
              else highlightRegions h token False (cursorRegions co) st1))"

text \<open>
  The buffer as its constructor leaves it, on a document of version \<open>v\<close>: nothing is
  cached, no request is in flight, and the debounced highlight is armed when a provider
  exists (\<^verbatim>\<open>if (this.hasProvider) this.highlight()\<close>).
\<close>

definition initialEngine :: "host \<Rightarrow> nat \<Rightarrow> engine" where
  "initialEngine h v =
     \<lparr>highlightsCache = None, dirty = False, appliedVersion = None, regions = [],
      tokenSource = None, rangeTokenSource = None, previousResults = None,
      timer = (if hasProvider h then Some (debounceInterval h) else None),
      sources = 0, cancelledSources = [], disposedSources = [], docVersion = v, trace = []\<rparr>"

section \<open>Definitions used to state the properties\<close>

text \<open>
  The resolution order as the specification words it: the first modifier, in the order
  of the provider, whose composite name prefix + Modifier + Type is available; else the
  first modifier whose name prefix + Modifier is available; else prefix + Type; else no
  group. The combine flag is the membership of the winning modifier in the combine list.
\<close>

definition specGroup :: "host \<Rightarrow> string option \<Rightarrow> string list \<Rightarrow> string option \<times> bool" where
  "specGroup h ty mods =
     (let available = set (highlightGroups (staticConfig h));
          composite = (\<lambda>m. HLGROUP_PREFIX @ upperFirst h (Some m) @ upperFirst h ty);
          bare = (\<lambda>m. HLGROUP_PREFIX @ upperFirst h (Some m));
          typeOnly = HLGROUP_PREFIX @ upperFirst h ty
      in case find (\<lambda>m. composite m \<in> available) mods of
           Some m \<Rightarrow> (Some (composite m), m \<in> set (combinedModifiers (config h)))
         | None \<Rightarrow>
            (case find (\<lambda>m. bare m \<in> available) mods of
               Some m \<Rightarrow> (Some (bare m), m \<in> set (combinedModifiers (config h)))
             | None \<Rightarrow> if typeOnly \<in> available then (Some typeOnly, False) else (None, False)))"




text \<open>
  Sources are numbered as they are created, so the two handles of a buffer are different
  sources created earlier.
\<close>

definition handlesFresh :: "engine \<Rightarrow> bool" where
  "handlesFresh st =
     ((case tokenSource st of Some t \<Rightarrow> t < sources st | None \<Rightarrow> True)
      \<and> (case rangeTokenSource st of Some r \<Rightarrow> r < sources st | None \<Rightarrow> True)
      \<and> (case tokenSource st of
            Some t \<Rightarrow> (case rangeTokenSource st of Some r \<Rightarrow> t \<noteq> r | None \<Rightarrow> True)
          | None \<Rightarrow> True))"

text \<open>
  A step keeps the handles when it creates no source, leaves each handle as it is or
  sets it to null, and withdraws no cancellation and no disposal.
\<close>

definition keepsHandles :: "engine \<Rightarrow> engine \<Rightarrow> bool" where
  "keepsHandles st st' =
     (sources st' = sources st
      \<and> (tokenSource st' = tokenSource st \<or> tokenSource st' = None)
      \<and> (rangeTokenSource st' = rangeTokenSource st \<or> rangeTokenSource st' = None)
      \<and> set (cancelledSources st) \<subseteq> set (cancelledSources st')
      \<and> set (disposedSources st) \<subseteq> set (disposedSources st'))"

text \<open>
  The source \<open>t\<close> has been superseded in a buffer by the source \<open>own\<close>: it is cancelled
  and disposed, and the full handle is \<open>own\<close> or null.
\<close>

definition superseded :: "nat \<Rightarrow> nat \<Rightarrow> engine \<Rightarrow> bool" where
  "superseded t own st =
     (isCancellationRequested t st \<and> t \<in> set (disposedSources st)
      \<and> (tokenSource st = None \<or> tokenSource st = Some own))"

text \<open>
  Two states with the same requests: the same handles, the same sources with the same
  cancelled and disposed ones, the same previous provider result and the same document
  version.
\<close>

definition sameRequests :: "engine \<Rightarrow> engine \<Rightarrow> bool" where
  "sameRequests st st' =
     (tokenSource st' = tokenSource st \<and> rangeTokenSource st' = rangeTokenSource st
      \<and> sources st' = sources st \<and> cancelledSources st' = cancelledSources st
      \<and> disposedSources st' = disposedSources st \<and> previousResults st' = previousResults st
      \<and> docVersion st' = docVersion st)"

text \<open>The calls a step adds to the trace.\<close>

definition newActions :: "engine \<Rightarrow> engine \<Rightarrow> action list" where
  "newActions st st' = drop (length (trace st)) (trace st')"

text \<open>A buffer in the middle of its life: a full pass and a range pass are in flight.\<close>

definition busyEngine :: engine where
  "busyEngine =
     \<lparr>highlightsCache = Some (3, []), dirty = True, appliedVersion = Some 3, regions = [(0, 50)],
      tokenSource = Some 4, rangeTokenSource = Some 5,
      previousResults = Some \<lparr>prev_version = 3, prev_resultId = Some ''r3'', prev_tokens = []\<rparr>,
      timer = Some 100, sources = 6, cancelledSources = [0, 1, 2, 3], disposedSources = [0, 1, 2, 3],
      docVersion = 3, trace = []\<rparr>"

text \<open>
  The calls that handlers running during a suspension add to the trace (only
  clearHighlight calls a collaborator), and three classes of calls: the diff of the whole
  document, the calls of a pass over the visible regions, and passes whose renderer
  answers arrive without any interleaved event.
\<close>

definition eventActions :: "event list \<Rightarrow> action list" where
  "eventActions evs = concat (map (\<lambda>e. if e = Ev_clearHighlight then [Clear_namespace] else []) evs)"

definition wholeDocumentDiff :: "action \<Rightarrow> bool" where
  "wholeDocumentDiff a = (case a of Diff_highlights items None \<Rightarrow> True | _ \<Rightarrow> False)"

definition regionAction :: "action \<Rightarrow> bool" where
  "regionAction a =
     (case a of Diff_highlights items (Some r) \<Rightarrow> True | Apply_diff d partial \<Rightarrow> partial
      | Clear_namespace \<Rightarrow> True | _ \<Rightarrow> False)"

definition quiet :: "(hldiff option \<times> event list) list \<Rightarrow> bool" where
  "quiet answers = list_all (\<lambda>a. snd a = []) answers"

text \<open>Answers of the collaborators with no interleaved event, for the examples.\<close>

definition quietRegions :: regions_oracle where
  "quietRegions = \<lparr>visibleRanges = [(10, 20), (30, 40)], visibleRanges_evs = [], regionDiffs = []\<rparr>"

definition quietRange :: range_oracle where
  "quietRange = \<lparr>regionReply = None, region_evs = [], rangeReply = Resolved NoResult,
     rangeReply_evs = [], rangeTicks = [], rangeDiff = None, rangeDiff_evs = [], rangeApply_evs = []\<rparr>"

definition quietPass :: "reply \<Rightarrow> pass_oracle" where
  "quietPass r = \<lparr>hiddenReply = False, hidden_evs = [], rangePass = quietRange,
     fullPass = \<lparr>fullReply = Resolved r, fullReply_evs = [], fullTicks = []\<rparr>,
     diffReply = Some (HlDiff 1), diff_evs = [], apply_evs = [], regionsPass = quietRegions\<rparr>"

text \<open>
  A cursor movement during which no other handler runs: no event is interleaved at any
  of its suspension points.
\<close>

definition quietTicks :: "event list option list \<Rightarrow> bool" where
  "quietTicks ticks = list_all (\<lambda>t. case t of None \<Rightarrow> True | Some evs \<Rightarrow> evs = []) ticks"

definition undisturbedRange :: "range_oracle \<Rightarrow> bool" where
  "undisturbedRange ro =
     (region_evs ro = [] \<and> rangeReply_evs ro = [] \<and> quietTicks (rangeTicks ro)
      \<and> rangeDiff_evs ro = [] \<and> rangeApply_evs ro = [])"

definition undisturbedRegions :: "regions_oracle \<Rightarrow> bool" where
  "undisturbedRegions rg = (visibleRanges_evs rg = [] \<and> quiet (regionDiffs rg))"

definition undisturbed :: "cursor_oracle \<Rightarrow> bool" where
  "undisturbed co =
     (wait_evs co = [] \<and> undisturbedRange (cursorRange co) \<and> undisturbedRegions (cursorRegions co))"

definition quietCursor :: cursor_oracle where
  "quietCursor = \<lparr>wait_evs = [], cursorRange = quietRange, cursorRegions = quietRegions\<rparr>"

definition exampleSpan :: SemanticTokenRange where
  "exampleSpan = \<lparr>trange = (Num 0, 0, 5), tokenType = Some ''keyword'', tokenModifiers = [],
     hlGroup = Some ''CocSemKeyword'', combine = False\<rparr>"

text \<open>
  The requests to a provider among the calls, a step that adds no such request to the
  trace, and the request that requestAllHighlights issues: the edits one when the pass
  is not forced, an edit provider exists and the previous result has a result id.
\<close>

definition providerRequest :: "action \<Rightarrow> bool" where
  "providerRequest a =
     (case a of Provide_full \<Rightarrow> True | Provide_edits rid \<Rightarrow> True | Provide_range s e \<Rightarrow> True
      | _ \<Rightarrow> False)"

definition quietlyExtends :: "engine \<Rightarrow> engine \<Rightarrow> bool" where
  "quietlyExtends st st' =
     (take (length (trace st)) (trace st') = trace st
      \<and> filter providerRequest (newActions st st') = [])"

definition requestIssued :: "host \<Rightarrow> bool \<Rightarrow> engine \<Rightarrow> action" where
  "requestIssued h forceFull st =
     (case previousResults st of
        Some pr \<Rightarrow> if \<not> forceFull \<and> hasEditProvider h \<and> truthy (prev_resultId pr)
                   then Provide_edits (the (prev_resultId pr)) else Provide_full
      | None \<Rightarrow> Provide_full)"


definition staleEngine :: engine where
  "staleEngine = busyEngine\<lparr>docVersion := 4\<rparr>"

definition deltaReply :: full_oracle where
  "deltaReply = \<lparr>fullReply = Resolved (Delta (Some ''r4'')
       [\<lparr>edit_start = 0, edit_deleteCount = None, edit_data = Some [0, 0, 5, 0, 0]\<rparr>]),
     fullReply_evs = [], fullTicks = []\<rparr>"

text \<open>
  A natural is representable when it is a double, as every natural up to \<open>2 ^ 53\<close> is.
  A token array is in the exact range when each of its integers, and each line, start
  character and end character of its reference decoding, is representable: then no sum
  of the decoder is rounded.
\<close>

definition representable :: "nat \<Rightarrow> bool" where
  "representable n = (js_round n = Num n)"

definition exactPosition :: "nat \<times> nat \<times> nat \<times> nat \<times> nat \<Rightarrow> bool" where
  "exactPosition = (\<lambda>(line, col, endCol, ty, bits).
     representable line \<and> representable col \<and> representable endCol)"

definition exactRange :: "nat list \<Rightarrow> bool" where
  "exactRange tokens =
     (list_all representable tokens
      \<and> list_all exactPosition (cursorDecode 0 0 (groupsOf tokens)))"

text \<open>A token array of 200 groups, one token per line.\<close>

definition manyTokens :: "nat list" where
  "manyTokens = concat (replicate 200 [0, 1, 1, 0, 0])"

section \<open>Concrete collaborators for the examples\<close>

text \<open>
  Modelled from the spec: \<^verbatim>\<open>upperFirst\<close> of util/string is not part of the file. The
  group names of the specification are prefix + Modifier + Type: the first letter of a
  name is put in upper case, and a missing name contributes nothing.
\<close>

definition upperChar :: "char \<Rightarrow> char" where
  "upperChar c = (let n = (of_char c :: nat) in if 97 \<le> n \<and> n \<le> 122 then char_of (n - 32) else c)"

definition asciiUpperFirst :: "string option \<Rightarrow> string" where
  "asciiUpperFirst s = (case s of None \<Rightarrow> [] | Some [] \<Rightarrow> [] | Some (c # cs) \<Rightarrow> upperChar c # cs)"

text \<open>
  Modelled from the spec: \<^verbatim>\<open>byteIndex\<close> of util/string is not part of the file. It
  converts a character offset of a line into the byte offset the renderer stores; on a
  line of single-byte characters that is the offset itself, limited by the line's length.
\<close>

definition asciiByteIndex :: "string \<Rightarrow> jsnum \<Rightarrow> nat" where
  "asciiByteIndex line idx =
     (case idx of Num k \<Rightarrow> min k (length line) | Infinity \<Rightarrow> length line | NaN \<Rightarrow> 0
      | Undefined \<Rightarrow> length line)"

definition exampleLegend :: SemanticTokensLegend where
  "exampleLegend = \<lparr>tokenTypes = [''keyword'', ''variable''], legendModifiers = []\<rparr>"

definition wideLegend :: SemanticTokensLegend where
  "wideLegend = \<lparr>tokenTypes = [''keyword''],
                  legendModifiers = ''abstract'' # replicate 31 ''m'' @ [''overflow'']\<rparr>"

definition exampleHost :: host where
  "exampleHost = \<lparr>upperFirst = asciiUpperFirst, byteIndex = asciiByteIndex,
     getline = (\<lambda>n. ''const answer = 42''),
     config = \<lparr>enable = True, highlightPriority = 2048, incrementTypes = [],
                combinedModifiers = [''readonly'']\<rparr>,
     staticConfig = \<lparr>filetypes = None,
       highlightGroups = [''CocSemReadonly'', ''CocSemDeclarationVariable'', ''CocSemKeyword'']\<rparr>,
     filetype = ''typescript'', docDirty = False, lineCount = 100, envLines = 20,
     updateHighlight = True, fullLegend = Some exampleLegend, rangeLegend = None,
     hasFullProvider = True, hasRangeProvider = False, hasEditProvider = True,
     debounceInterval = 100, requestDelay = 500\<rparr>"

section \<open>Properties of the decoder\<close>

lemma modifierBit_Num: "modifierBit (Num b) m = bit b (m mod 32)"
proof -
  have k: "m mod 32 < 32" by simp
  have "((word_of_nat b :: 32 word) AND push_bit (m mod 32) 1) \<noteq> 0
          \<longleftrightarrow> bit (word_of_nat b :: 32 word) (m mod 32)"
    by (metis and_exp_eq_0_iff_not_bit push_bit_of_1)
  also have "\<dots> \<longleftrightarrow> bit b (m mod 32)"
    using k by (simp add: bit_of_nat_iff)
  finally show ?thesis by (simp add: modifierBit_def)
qed

lemma zip_upt_filter:
  "map fst (filter (\<lambda>(n, m). P m) (zip xs [0..<length xs])) = map ((!) xs) (filter P [0..<length xs])"
proof -
  have "zip xs [0..<length xs] = map (\<lambda>i. (xs ! i, i)) [0..<length xs]"
    by (rule nth_equalityI) simp_all
  then show ?thesis
    by (simp add: filter_map comp_def)
qed

lemma filterModifiers_bits:
  assumes "length names \<le> 32"
  shows "filterModifiers names (Num b) = map ((!) names) (filter (bit b) [0..<length names])"
proof -
  have "filter (\<lambda>m. bit b (m mod 32)) [0..<length names] = filter (bit b) [0..<length names]"
    using assms by (intro filter_cong) auto
  then show ?thesis
    by (simp add: filterModifiers_def modifierBit_Num zip_upt_filter)
qed

lemma length_cursorDecode: "length (cursorDecode l c gs) = length gs"
  by (induction gs arbitrary: l c) (auto simp: Let_def)

lemma length_groupsOf: "length (groupsOf ts) = length ts div 5"
  by (induction ts rule: groupsOf.induct) simp_all

lemma cursorDecode_lines:
  "map fst (cursorDecode l c gs) = map (\<lambda>k. l + sum_list (map fst (take (Suc k) gs))) [0..<length gs]"
proof (induction gs arbitrary: l c)
  case Nil
  then show ?case by simp
next
  case (Cons g gs)
  obtain dl dc len ty bits where g: "g = (dl, dc, len, ty, bits)" by (cases g)
  have "[0..<length (g # gs)] = 0 # map Suc [0..<length gs]"
    by (simp add: upt_conv_Cons map_Suc_upt del: upt_Suc)
  then show ?case
    using Cons.IH [of "l + dl"] by (simp add: g Let_def comp_def add.assoc del: upt_Suc)
qed

lemma cursorDecode_sorted_from:
  "sorted (map fst (cursorDecode l c gs)) \<and> (\<forall>x \<in> set (map fst (cursorDecode l c gs)). l \<le> x)"
proof (induction gs arbitrary: l c)
  case Nil
  then show ?case by simp
next
  case (Cons g gs)
  obtain dl dc len ty bits where g: "g = (dl, dc, len, ty, bits)" by (cases g)
  show ?case
    using Cons.IH [of "l + dl" "if dl = 0 then c + dc else dc"]
    by (fastforce simp: g Let_def)
qed

lemma js_round_exact: "n \<le> 2 ^ 53 \<Longrightarrow> js_round n = Num n"
  by (simp add: js_round_def)

lemma floorlog_54: "floorlog 2 9007199254740993 = 54"
proof -
  have "floorlog 2 9007199254740993 \<le> 54"
    by (rule floorlog_leI) simp_all
  moreover have "Suc 53 \<le> floorlog 2 9007199254740993"
    by (rule floorlog_ge_SucI) simp_all
  ultimately show ?thesis by simp
qed

lemma js_round_tie: "js_round 9007199254740993 = Num 9007199254740992"
  by (simp add: js_round_def floorlog_54 Let_def)

lemma representable_small: "n \<le> 2 ^ 53 \<Longrightarrow> representable n"
  by (simp add: representable_def js_round_exact)

lemma decodeStep_group:
  assumes "length (legendModifiers legend) \<le> 32"
    and "representable a" "representable b" "representable cc" "representable d" "representable e"
    and "representable (l + a)" and "representable (if a = 0 then c + b else b)"
    and "representable ((if a = 0 then c + b else b) + cc)"
  shows "decodeStep h legend (Num l) (Num c) (a # b # cc # d # e # rest) hs =
     (Num (l + a), Num (if a = 0 then c + b else b),
      hs @ [referenceSpan h legend (l + a, (if a = 0 then c + b else b), (if a = 0 then c + b else b) + cc, d, e)])"
proof -
  have t: "tok (a # b # cc # d # e # rest) 0 = Num a" "tok (a # b # cc # d # e # rest) 1 = Num b"
    "tok (a # b # cc # d # e # rest) 2 = Num cc" "tok (a # b # cc # d # e # rest) 3 = Num d"
    "tok (a # b # cc # d # e # rest) 4 = Num e"
    using assms(2-6) by (simp_all add: tok_def representable_def)
  have main: "decodeStep h legend (Num l) (Num c) grp hs =
     (Num (l + a), Num (if a = 0 then c + b else b),
      hs @ [referenceSpan h legend (l + a, (if a = 0 then c + b else b), (if a = 0 then c + b else b) + cc, d, e)])"
    if "tok grp 0 = Num a" "tok grp 1 = Num b" "tok grp 2 = Num cc" "tok grp 3 = Num d" "tok grp 4 = Num e"
    for grp
  proof (cases "a = 0")
    case True
    have "js_round l = Num l" "js_round (c + b) = Num (c + b)" "js_round (c + b + cc) = Num (c + b + cc)"
      using assms(7,8,9) True by (simp_all add: representable_def)
    then show ?thesis
      using True that
      by (simp add: decodeStep_def Let_def typeName_def
            filterModifiers_bits[OF assms(1)] addHighlightItems_def referenceSpan_def split_beta)
  next
    case False
    have "js_round (l + a) = Num (l + a)" "js_round (b + cc) = Num (b + cc)"
      using assms(7,9) False by (simp_all add: representable_def)
    then show ?thesis
      using False that
      by (simp add: decodeStep_def Let_def typeName_def
            filterModifiers_bits[OF assms(1)] addHighlightItems_def referenceSpan_def split_beta)
  qed
  show ?thesis by (rule main[OF t])
qed

lemma decodeLoop_wellformed:
  assumes "length ts mod 5 = 0" and "length (legendModifiers legend) \<le> 32"
    and "list_all representable ts"
    and "list_all exactPosition (cursorDecode l c (groupsOf ts))"
  shows "snd (decodeLoop h legend neverCancelled ticks w (Num l) (Num c) ts hs) =
            hs @ map (referenceSpan h legend) (cursorDecode l c (groupsOf ts))"
  using assms
proof (induction ts arbitrary: ticks w l c hs rule: groupsOf.induct)
  case (1 a b cc d e rest)
  let ?c = "if a = 0 then c + b else b"
  have r: "length rest mod 5 = 0" using "1.prems"(1) by (simp add: mod_Suc split: if_splits)
  have nc: "\<not> (yields ticks \<and> neverCancelled (resume ticks w))"
    by (simp add: neverCancelled_def)
  have small: "representable a" "representable b" "representable cc" "representable d" "representable e"
    and rest: "list_all representable rest"
    using "1.prems"(3) by simp_all
  have pos: "representable (l + a)" "representable ?c" "representable (?c + cc)"
    and later: "list_all exactPosition (cursorDecode (l + a) ?c (groupsOf rest))"
    using "1.prems"(4) by (simp_all add: exactPosition_def Let_def)
  have step: "decodeStep h legend (Num l) (Num c) (a # b # cc # d # e # rest) hs =
     (Num (l + a), Num ?c, hs @ [referenceSpan h legend (l + a, ?c, ?c + cc, d, e)])" for hs
    by (rule decodeStep_group[OF "1.prems"(2) small pos])
  show ?case
    using "1.IH"[OF r "1.prems"(2) rest later]
    by (simp add: nc step Let_def)
qed (simp_all add: mod_Suc split: if_splits)

lemma cursorDecode_bounded:
  "l + c + sum_list (map (\<lambda>g. fst g + fst (snd g) + fst (snd (snd g))) gs) \<le> 2 ^ 53
     \<Longrightarrow> list_all exactPosition (cursorDecode l c gs)"
proof (induction gs arbitrary: l c)
  case Nil
  then show ?case by simp
next
  case (Cons g gs)
  obtain a b cc d e where g: "g = (a, b, cc, d, e)" by (cases g)
  let ?c = "if a = 0 then c + b else b"
  have "(l + a) + ?c + sum_list (map (\<lambda>g. fst g + fst (snd g) + fst (snd (snd g))) gs) \<le> 2 ^ 53"
    using Cons.prems by (simp add: g)
  from Cons.IH[OF this] have later: "list_all exactPosition (cursorDecode (l + a) ?c gs)" .
  have "l + a \<le> 2 ^ 53" "?c \<le> 2 ^ 53" "?c + cc \<le> 2 ^ 53"
    using Cons.prems by (simp_all add: g)
  then have "representable (l + a)" "representable ?c" "representable (?c + cc)"
    by (simp_all only: representable_small)
  then show ?case
    using later by (simp add: g Let_def exactPosition_def)
qed

lemma groupsOf_sum:
  "sum_list (map (\<lambda>g. fst g + fst (snd g) + fst (snd (snd g))) (groupsOf ts)) \<le> sum_list ts"
  by (induction ts rule: groupsOf.induct) simp_all

lemma exactRange_sum:
  assumes "sum_list tokens \<le> 2 ^ 53"
  shows "exactRange tokens"
proof -
  have "\<forall>t \<in> set tokens. t \<le> 2 ^ 53"
    using assms member_le_sum_list by fastforce
  then have "\<forall>t \<in> set tokens. representable t"
    using representable_small by blast
  moreover have "list_all exactPosition (cursorDecode 0 0 (groupsOf tokens))"
    using groupsOf_sum[of tokens] assms by (intro cursorDecode_bounded) simp
  ultimately show ?thesis
    by (simp add: exactRange_def list_all_iff)
qed



lemma wide_filter:
  "filterModifiers (legendModifiers wideLegend) (Num (Suc 0)) = [''abstract'', ''overflow'']"
proof -
  let ?P = "\<lambda>m. bit (Suc 0) (m mod 32)"
  have split: "[0..<33] = 0 # [Suc 0..<32] @ [32::nat]"
    by (simp add: upt_conv_Cons numeral_eq_Suc del: upt_Suc)
  have none: "filter ?P [Suc 0..<32] = []"
    by (auto simp: filter_empty_conv bit_Suc_0_iff)
  have f: "filter ?P [0..<33] = [0, 32]"
    unfolding split by (simp add: none bit_Suc_0_iff)
  have len: "length (legendModifiers wideLegend) = 33"
    by (simp add: wideLegend_def)
  have "filterModifiers names (Num (Suc 0)) = map ((!) names) (filter ?P [0..<length names])"
    for names
    by (simp add: filterModifiers_def zip_upt_filter modifierBit_Num)
  then show ?thesis
    by (simp add: len f) (simp add: wideLegend_def nth_append)
qed

lemma wide_reference:
  "map ((!) (legendModifiers wideLegend))
     (filter (bit (Suc 0)) [0..<length (legendModifiers wideLegend)]) = [''abstract'']"
proof -
  have split: "[0..<33] = 0 # [Suc 0..<33::nat]"
    by (simp add: upt_conv_Cons del: upt_Suc)
  have none: "filter (bit (Suc 0)) [Suc 0..<33] = []"
    by (auto simp: filter_empty_conv bit_Suc_0_iff)
  have len: "length (legendModifiers wideLegend) = 33"
    by (simp add: wideLegend_def)
  show ?thesis
    unfolding len split by (simp add: none bit_Suc_0_iff) (simp add: wideLegend_def)
qed

section \<open>Highlight group resolution\<close>

lemma modifierTypeGroup_find:
  "modifierTypeGroup h ty mods =
     map_option (\<lambda>m. (HLGROUP_PREFIX @ upperFirst h (Some m) @ upperFirst h ty,
                       m \<in> set (combinedModifiers (config h))))
       (find (\<lambda>m. HLGROUP_PREFIX @ upperFirst h (Some m) @ upperFirst h ty
                     \<in> set (highlightGroups (staticConfig h))) mods)"
  by (induction mods) (simp_all add: Let_def)

lemma modifierGroup_find:
  "modifierGroup h mods =
     map_option (\<lambda>m. (HLGROUP_PREFIX @ upperFirst h (Some m), m \<in> set (combinedModifiers (config h))))
       (find (\<lambda>m. HLGROUP_PREFIX @ upperFirst h (Some m) \<in> set (highlightGroups (staticConfig h))) mods)"
  by (induction mods) (simp_all add: Let_def)

lemma truthy_prefix: "truthy (Some (HLGROUP_PREFIX @ s))"
  by (simp add: truthy_def HLGROUP_PREFIX_def)

lemma resolveGroup_specGroup: "resolveGroup h ty mods = specGroup h ty mods"
  by (simp add: resolveGroup_def specGroup_def modifierTypeGroup_find modifierGroup_find
        truthy_prefix Let_def truthy_def[of None] split: option.splits)

lemma toHighlightItems_grouped:
  "toHighlightItems h spans flt = toHighlightItems h (filter (\<lambda>hi. hlGroup hi \<noteq> None) spans) flt"
  by (induction spans) (auto simp: truthy_def Let_def)

lemma toHighlightItems_groups:
  "map item_hlGroup (toHighlightItems h spans None) =
     map (\<lambda>hi. the (hlGroup hi)) (filter (\<lambda>hi. truthy (hlGroup hi)) spans)"
  by (induction spans) (auto simp: Let_def)

text \<open>
  Claim C2. For every type name and every list of modifiers the groups are tried in
  strict priority order: for each modifier in the provider's order the composite name
  CocSem + Modifier + Type, else for each modifier CocSem + Modifier, else
  CocSem + Type, else no group. The combine flag is the membership of the winning
  modifier in \<^verbatim>\<open>combinedModifiers\<close> and is false for a match on the type alone. The
  span is appended to the decoded list whatever the outcome, and toHighlightItems hands
  to the renderer only spans that carry a group.
\<close>

theorem resolveGroup_priority:
  "resolveGroup h ty mods = specGroup h ty mods
   \<and> addHighlightItems h highlights lnum startCharacter endCharacter ty mods =
       highlights @
       [\<lparr>trange = (lnum, byteIndex h (getline h lnum) startCharacter,
                    byteIndex h (getline h lnum) endCharacter),
         tokenType = ty, tokenModifiers = mods,
         hlGroup = fst (specGroup h ty mods), combine = snd (specGroup h ty mods)\<rparr>]
   \<and> toHighlightItems h spans flt = toHighlightItems h (filter (\<lambda>hi. hlGroup hi \<noteq> None) spans) flt
   \<and> map item_hlGroup (toHighlightItems h spans None) =
       map (\<lambda>hi. the (hlGroup hi)) (filter (\<lambda>hi. truthy (hlGroup hi)) spans)"
proof -
  have "addHighlightItems h highlights lnum startCharacter endCharacter ty mods =
       highlights @
       [\<lparr>trange = (lnum, byteIndex h (getline h lnum) startCharacter,
                    byteIndex h (getline h lnum) endCharacter),
         tokenType = ty, tokenModifiers = mods,
         hlGroup = fst (specGroup h ty mods), combine = snd (specGroup h ty mods)\<rparr>]"
    by (simp add: addHighlightItems_def resolveGroup_specGroup split_beta Let_def)
  then show ?thesis
    using resolveGroup_specGroup toHighlightItems_grouped toHighlightItems_groups by blast
qed

text \<open>
  The scenario of the specification: with modifiers declaration, readonly and type
  variable, CocSemDeclarationVariable wins over CocSemReadonly although the latter comes
  first among the available groups.
\<close>

theorem resolveGroup_priority_witness:
  "resolveGroup exampleHost (Some ''variable'') [''declaration'', ''readonly'']
     = (Some ''CocSemDeclarationVariable'', False)
   \<and> resolveGroup exampleHost (Some ''variable'') [''readonly''] = (Some ''CocSemReadonly'', True)
   \<and> resolveGroup exampleHost (Some ''keyword'') [] = (Some ''CocSemKeyword'', False)
   \<and> resolveGroup exampleHost (Some ''variable'') [] = (None, False)
   \<and> toHighlightItems exampleHost
        (addHighlightItems exampleHost [] (Num 0) (Num 0) (Num 5) (Some ''variable'') []) None = []"
proof -
  have 1: "specGroup exampleHost (Some ''variable'') [''declaration'', ''readonly'']
     = (Some ''CocSemDeclarationVariable'', False)" by code_simp
  have 2: "specGroup exampleHost (Some ''variable'') [''readonly''] = (Some ''CocSemReadonly'', True)"
    by code_simp
  have 3: "specGroup exampleHost (Some ''keyword'') [] = (Some ''CocSemKeyword'', False)"
    by code_simp
  have 4: "specGroup exampleHost (Some ''variable'') [] = (None, False)"
    by code_simp
  have 5: "toHighlightItems exampleHost
        (addHighlightItems exampleHost [] (Num 0) (Num 0) (Num 5) (Some ''variable'') []) None = []"
    using resolveGroup_priority[of exampleHost "Some ''variable''" "[]" "[]" "Num 0" "Num 0" "Num 5"] 4
    by (simp add: truthy_def)
  show ?thesis
    using resolveGroup_priority[of exampleHost "Some ''variable''" "[''declaration'', ''readonly'']"]
      resolveGroup_priority[of exampleHost "Some ''variable''" "[''readonly'']"]
      resolveGroup_priority[of exampleHost "Some ''keyword''" "[]"]
      resolveGroup_priority[of exampleHost "Some ''variable''" "[]"]
      1 2 3 4 5 by simp
qed

section \<open>Decoding\<close>

text \<open>
  Claim C1, amended. For every token array whose length is a multiple of 5 and that is
  in the exact range (each of its integers, and each line, start character and end
  character of its decoding, is a double, as every natural up to \<open>2 ^ 53\<close> is, so that
  no sum of the decoder is rounded), every
  legend with at most 32 modifier names and a token that is never cancelled,
  getTokenRanges returns the reference decoding: one span per group of five integers,
  the line being the running sum of the deltaLine values (so the lines never decrease),
  the start character previousCharacter + deltaStartCol when deltaLine is 0 and
  deltaStartCol otherwise, the end character start + length, the modifiers the legend's
  names whose bit is set in the bitmask, and the stored columns the byte indices of the
  two character offsets in the line's text. The empty array decodes to the empty list,
  and the tokens 0,0,5,0,0, 2,2,3,1,0 with the types keyword, variable decode to a keyword
  on line 0 from character 0 to 5 and a variable on line 2 from character 2 to 5.
\<close>

theorem getTokenRanges_reference:
  assumes "length tokens mod 5 = 0" and "length (legendModifiers legend) \<le> 32"
    and "exactRange tokens"
  shows "snd (getTokenRanges h tokens legend neverCancelled ticks w) = Some (referenceDecode h legend tokens)
    \<and> length (referenceDecode h legend tokens) = length tokens div 5
    \<and> map (\<lambda>s. fst (trange s)) (referenceDecode h legend tokens)
        = map (\<lambda>k. Num (sum_list (map fst (take (Suc k) (groupsOf tokens))))) [0..<length tokens div 5]
    \<and> sorted (map (\<lambda>k. sum_list (map fst (take (Suc k) (groupsOf tokens)))) [0..<length tokens div 5])
    \<and> snd (getTokenRanges h [] legend neverCancelled ticks w) = Some []
    \<and> (tokenTypes legend = [''keyword'', ''variable''] \<longrightarrow>
         map (\<lambda>s. (trange s, tokenType s)) (referenceDecode h legend [0, 0, 5, 0, 0, 2, 2, 3, 1, 0])
           = [((Num 0, byteIndex h (getline h (Num 0)) (Num 0), byteIndex h (getline h (Num 0)) (Num 5)),
               Some ''keyword''),
              ((Num 2, byteIndex h (getline h (Num 2)) (Num 2), byteIndex h (getline h (Num 2)) (Num 5)),
               Some ''variable'')])"
proof -
  have lines: "map (\<lambda>s. fst (trange s)) (referenceDecode h legend tokens)
      = map Num (map fst (cursorDecode 0 0 (groupsOf tokens)))"
    by (simp add: referenceDecode_def referenceSpan_def comp_def split_beta Let_def)
  have sums: "map fst (cursorDecode 0 0 (groupsOf tokens))
      = map (\<lambda>k. sum_list (map fst (take (Suc k) (groupsOf tokens)))) [0..<length tokens div 5]"
    by (simp add: cursorDecode_lines length_groupsOf)
  have ex: "list_all representable tokens" "list_all exactPosition (cursorDecode 0 0 (groupsOf tokens))"
    using assms(3) by (simp_all add: exactRange_def)
  have 1: "snd (getTokenRanges h tokens legend neverCancelled ticks w) = Some (referenceDecode h legend tokens)"
    using decodeLoop_wellformed[OF assms(1,2) ex, of h ticks w "[]"]
    by (simp add: getTokenRanges_def referenceDecode_def neverCancelled_def split_beta)
  have 2: "length (referenceDecode h legend tokens) = length tokens div 5"
    by (simp add: referenceDecode_def length_cursorDecode length_groupsOf)
  have 3: "map (\<lambda>s. fst (trange s)) (referenceDecode h legend tokens)
        = map (\<lambda>k. Num (sum_list (map fst (take (Suc k) (groupsOf tokens))))) [0..<length tokens div 5]"
    unfolding lines sums by (simp add: comp_def)
  have 4: "sorted (map (\<lambda>k. sum_list (map fst (take (Suc k) (groupsOf tokens)))) [0..<length tokens div 5])"
    unfolding sums[symmetric] using cursorDecode_sorted_from by blast
  have 5: "snd (getTokenRanges h [] legend neverCancelled ticks w) = Some []"
    by (simp add: getTokenRanges_def neverCancelled_def)
  have 6: "tokenTypes legend = [''keyword'', ''variable''] \<longrightarrow>
         map (\<lambda>s. (trange s, tokenType s)) (referenceDecode h legend [0, 0, 5, 0, 0, 2, 2, 3, 1, 0])
           = [((Num 0, byteIndex h (getline h (Num 0)) (Num 0), byteIndex h (getline h (Num 0)) (Num 5)),
               Some ''keyword''),
              ((Num 2, byteIndex h (getline h (Num 2)) (Num 2), byteIndex h (getline h (Num 2)) (Num 5)),
               Some ''variable'')]"
    by (simp add: referenceDecode_def referenceSpan_def Let_def numeral_2_eq_2)
  from 1 2 3 4 5 6 show ?thesis by blast
qed

text \<open>On lines of single-byte characters the stored columns are the character offsets.\<close>

theorem getTokenRanges_reference_witness:
  "length [0, 0, 5, 0, 0, 2, 2, 3, 1, 0 :: nat] mod 5 = 0
   \<and> length (legendModifiers exampleLegend) \<le> 32
   \<and> exactRange [0, 0, 5, 0, 0, 2, 2, 3, 1, 0]
   \<and> tokenTypes exampleLegend = [''keyword'', ''variable'']
   \<and> map (\<lambda>s. (trange s, tokenType s))
       (the (snd (getTokenRanges exampleHost [0, 0, 5, 0, 0, 2, 2, 3, 1, 0] exampleLegend neverCancelled [] ())))
       = [((Num 0, 0, 5), Some ''keyword''), ((Num 2, 2, 5), Some ''variable'')]"
proof -
  have a: "length [0, 0, 5, 0, 0, 2, 2, 3, 1, 0 :: nat] mod 5 = 0" by simp
  have b: "length (legendModifiers exampleLegend) \<le> 32" by (simp add: exampleLegend_def)
  have c: "tokenTypes exampleLegend = [''keyword'', ''variable'']" by (simp add: exampleLegend_def)
  have d: "exactRange [0, 0, 5, 0, 0, 2, 2, 3, 1, 0]"
    by (rule exactRange_sum) simp
  show ?thesis
    using getTokenRanges_reference[OF a b d, of exampleHost "[]" "()"] a b c d
    by (simp add: exampleHost_def asciiByteIndex_def)
qed

text \<open>
  Claim C1 as stated fails in two ways. For a legend of more than 32 modifier names the
  shift count of \<^verbatim>\<open>1 << m\<close> is taken modulo 32, so with the bitmask 1 the modifier of
  index 32 is reported besides the modifier of index 0, although bit 32 of the bitmask
  is not set. And the sums are sums of doubles: after a token on line \<open>2 ^ 53\<close> a
  deltaLine of 1 leaves the line at \<open>2 ^ 53\<close>, where the running sum is \<open>2 ^ 53 + 1\<close>.
\<close>

theorem getTokenRanges_wide_legend_counterexample:
  "map tokenModifiers
     (the (snd (getTokenRanges exampleHost [0, 0, 1, 0, 1] wideLegend neverCancelled [] ())))
     = [[''abstract'', ''overflow'']]
   \<and> map tokenModifiers (referenceDecode exampleHost wideLegend [0, 0, 1, 0, 1]) = [[''abstract'']]
   \<and> map (\<lambda>s. fst (trange s))
       (the (snd (getTokenRanges exampleHost [9007199254740992, 0, 1, 0, 0, 1, 0, 1, 0, 0]
                    exampleLegend neverCancelled [] ())))
     = [Num 9007199254740992, Num 9007199254740992]
   \<and> map (\<lambda>s. fst (trange s))
       (referenceDecode exampleHost exampleLegend [9007199254740992, 0, 1, 0, 0, 1, 0, 1, 0, 0])
     = [Num 9007199254740992, Num 9007199254740993]"
proof -
  have nc: "\<And>w. \<not> neverCancelled w" by (simp add: neverCancelled_def)
  have "map tokenModifiers
     (the (snd (getTokenRanges exampleHost [0, 0, 1, 0, 1] wideLegend neverCancelled [] ())))
     = [[''abstract'', ''overflow'']]"
    by (simp add: getTokenRanges_def decodeStep_def tok_def js_round_exact wide_filter
         addHighlightItems_def split_beta Let_def nc yields_def)
  moreover have "map tokenModifiers (referenceDecode exampleHost wideLegend [0, 0, 1, 0, 1]) = [[''abstract'']]"
    by (simp add: referenceDecode_def referenceSpan_def Let_def wide_reference)
  moreover have "map (\<lambda>s. fst (trange s))
       (the (snd (getTokenRanges exampleHost [9007199254740992, 0, 1, 0, 0, 1, 0, 1, 0, 0]
                    exampleLegend neverCancelled [] ())))
     = [Num 9007199254740992, Num 9007199254740992]"
    by (simp add: getTokenRanges_def decodeStep_def tok_def js_round_exact js_round_tie
         addHighlightItems_def split_beta Let_def nc yields_def)
  moreover have "map (\<lambda>s. fst (trange s))
       (referenceDecode exampleHost exampleLegend [9007199254740992, 0, 1, 0, 0, 1, 0, 1, 0, 0])
     = [Num 9007199254740992, Num 9007199254740993]"
    by (simp add: referenceDecode_def referenceSpan_def Let_def)
  ultimately show ?thesis by simp
qed

section \<open>Cancellation\<close>

lemma cancel_False_fields:
  "tokenSource (cancel False st) = None"
  "rangeTokenSource (cancel False st) = None"
  "regions (cancel False st) = []"
  "timer (cancel False st) = None"
  "highlightsCache (cancel False st) = highlightsCache st"
  "previousResults (cancel False st) = previousResults st"
  "dirty (cancel False st) = dirty st"
  "appliedVersion (cancel False st) = appliedVersion st"
  "docVersion (cancel False st) = docVersion st"
  "trace (cancel False st) = trace st"
  "sources (cancel False st) = sources st"
  by (simp_all add: cancel_def cancelAndDispose_def regions_clear_def Let_def split: option.splits)

lemma cancel_True_fields:
  "tokenSource (cancel True st) = tokenSource st"
  "rangeTokenSource (cancel True st) = None"
  "regions (cancel True st) = regions st"
  "timer (cancel True st) = timer st"
  "highlightsCache (cancel True st) = highlightsCache st"
  "previousResults (cancel True st) = previousResults st"
  "dirty (cancel True st) = dirty st"
  "appliedVersion (cancel True st) = appliedVersion st"
  "docVersion (cancel True st) = docVersion st"
  "trace (cancel True st) = trace st"
  "sources (cancel True st) = sources st"
  by (simp_all add: cancel_def cancelAndDispose_def Let_def split: option.splits)

lemma cancel_cancelled:
  "set (cancelledSources (cancel rangeOnly st)) =
     set (cancelledSources st) \<union> set_option (rangeTokenSource st)
       \<union> (if rangeOnly then {} else set_option (tokenSource st))"
  by (auto simp: cancel_def cancelAndDispose_def Let_def split: option.splits)

lemma cancel_disposed:
  "set (disposedSources (cancel rangeOnly st)) =
     set (disposedSources st) \<union> set_option (rangeTokenSource st)
       \<union> (if rangeOnly then {} else set_option (tokenSource st))"
  by (auto simp: cancel_def cancelAndDispose_def Let_def split: option.splits)

lemma cancel_without_handles:
  "rangeTokenSource st = None \<Longrightarrow> cancel True st = st"
  "rangeTokenSource st = None \<Longrightarrow> tokenSource st = None \<Longrightarrow> regions st = [] \<Longrightarrow> timer st = None
     \<Longrightarrow> cancel False st = st"
  by (simp_all add: cancel_def regions_clear_def Let_def)

lemma cancel_False_idem: "cancel False (cancel False st) = cancel False st"
  by (rule cancel_without_handles) (simp_all add: cancel_False_fields)

lemma cancel_True_idem: "cancel True (cancel True st) = cancel True st"
  by (rule cancel_without_handles) (simp_all add: cancel_True_fields)

lemma doHighlight_starts_with_cancel:
  "doHighlight h forceFull onShown orc (cancel False st) = doHighlight h forceFull onShown orc st"
  by (simp add: doHighlight_def cancel_False_idem)

lemma onCursorMoved_starts_with_cancel:
  "onCursorMoved h co (cancel True st) = onCursorMoved h co st"
  by (simp add: onCursorMoved_def cancel_True_idem)

text \<open>
  Claim C10. A cancel of the full class (\<^verbatim>\<open>cancel()\<close> with rangeOnly false, as run by
  onTextChange, at the start of doHighlight, by forceHighlight and by dispose) cancels
  and disposes the range handle as well as the full one, empties the painted-region set
  and clears the pending debounced highlight; it leaves the decoded cache and the
  previous provider result as they are; both handles are null afterwards, so a second
  cancel changes nothing.
\<close>

theorem cancel_full_class:
  "tokenSource (cancel False st) = None \<and> rangeTokenSource (cancel False st) = None
   \<and> set_option (rangeTokenSource st) \<union> set_option (tokenSource st)
        \<subseteq> set (cancelledSources (cancel False st)) \<inter> set (disposedSources (cancel False st))
   \<and> regions (cancel False st) = [] \<and> timer (cancel False st) = None
   \<and> highlightsCache (cancel False st) = highlightsCache st
   \<and> previousResults (cancel False st) = previousResults st
   \<and> cancel False (cancel False st) = cancel False st
   \<and> onTextChange st = cancel False st
   \<and> doHighlight h forceFull onShown orc st = doHighlight h forceFull onShown orc (cancel False st)
   \<and> forceHighlight h orc st = doHighlight h True False orc (cancel False (clearHighlight st))
   \<and> dispose st = clearHighlight (cancel False st)"
  by (auto simp: cancel_False_fields cancel_False_idem cancel_cancelled cancel_disposed
        onTextChange_def doHighlight_starts_with_cancel forceHighlight_def dispose_def)

text \<open>With a full pass (source 4) and a range pass (source 5) in flight.\<close>

theorem cancel_full_class_witness:
  "cancel False busyEngine =
     busyEngine\<lparr>regions := [], tokenSource := None, rangeTokenSource := None, timer := None,
                cancelledSources := [4, 5, 0, 1, 2, 3], disposedSources := [4, 5, 0, 1, 2, 3]\<rparr>
   \<and> cancel False (cancel False busyEngine) = cancel False busyEngine
   \<and> highlightsCache (cancel False busyEngine) = Some (3, [])"
proof -
  have "cancel False busyEngine =
     busyEngine\<lparr>regions := [], tokenSource := None, rangeTokenSource := None, timer := None,
                cancelledSources := [4, 5, 0, 1, 2, 3], disposedSources := [4, 5, 0, 1, 2, 3]\<rparr>"
    by (simp add: cancel_def cancelAndDispose_def busyEngine_def regions_clear_def Let_def)
  moreover have "highlightsCache busyEngine = Some (3, [])" by (simp add: busyEngine_def)
  ultimately show ?thesis
    using cancel_full_class[of busyEngine] by simp
qed

section \<open>Failures of a provider call\<close>

lemma sendRequest_Resolved: "sendRequest h token (st, Resolved r) = (st, r)"
  by (simp add: sendRequest_def)

lemma sendRequest_Rejected:
  "sendRequest h token (st, Rejected e) =
     (if isCancellationRequested token st then (st, None)
      else if e = CancellationError then (st\<lparr>timer := Some (requestDelay h)\<rparr>, None)
      else (act Log_error st, None))"
  by (simp add: sendRequest_def)

text \<open>
  Claim C8, amended. A rejected provider call always yields no result. When the pass's
  own token is not cancelled, a cancellation error arms the debounced highlight with the
  request delay, and any other error is logged and nothing else: no message is sent to
  the user and no retry is scheduled. When the pass's token is cancelled nothing is
  logged and nothing is scheduled. A call that resolves is passed through.
\<close>

theorem sendRequest_failures:
  fixes r :: "'a option"
  shows "snd (sendRequest h token (st, Rejected e :: 'a option settled)) = None
   \<and> (\<not> isCancellationRequested token st \<and> e = CancellationError \<longrightarrow>
        fst (sendRequest h token (st, Rejected e)) = st\<lparr>timer := Some (requestDelay h)\<rparr>)
   \<and> (\<not> isCancellationRequested token st \<and> e \<noteq> CancellationError \<longrightarrow>
        fst (sendRequest h token (st, Rejected e)) = st\<lparr>trace := trace st @ [Log_error]\<rparr>)
   \<and> (isCancellationRequested token st \<longrightarrow> fst (sendRequest h token (st, Rejected e)) = st)
   \<and> sendRequest h token (st, Resolved r) = (st, r)"
  by (simp add: sendRequest_Resolved sendRequest_Rejected act_def)

theorem sendRequest_failures_witness:
  "sendRequest exampleHost 4 (busyEngine, Rejected CancellationError :: SemanticTokenRange list option settled)
     = (busyEngine\<lparr>timer := Some 500\<rparr>, None)
   \<and> sendRequest exampleHost 4 (busyEngine, Rejected OtherError :: SemanticTokenRange list option settled)
     = (busyEngine\<lparr>trace := [Log_error]\<rparr>, None)
   \<and> sendRequest exampleHost 3 (busyEngine, Rejected OtherError :: SemanticTokenRange list option settled)
     = (busyEngine, None)"
proof -
  have a: "\<not> isCancellationRequested 4 busyEngine" "isCancellationRequested 3 busyEngine"
    by (simp_all add: busyEngine_def isCancellationRequested_def)
  have t: "trace busyEngine = []" "requestDelay exampleHost = 500"
    by (simp_all add: busyEngine_def exampleHost_def)
  have 1: "sendRequest exampleHost 4 (busyEngine, Rejected CancellationError :: SemanticTokenRange list option settled)
     = (busyEngine\<lparr>timer := Some (requestDelay exampleHost)\<rparr>, None)"
    by (metis a(1) sendRequest_failures prod.collapse)
  have 2: "sendRequest exampleHost 4 (busyEngine, Rejected OtherError :: SemanticTokenRange list option settled)
     = (busyEngine\<lparr>trace := trace busyEngine @ [Log_error]\<rparr>, None)"
    by (metis a(1) sendRequest_failures prod.collapse thrown.distinct(3))
  have 3: "sendRequest exampleHost 3 (busyEngine, Rejected OtherError :: SemanticTokenRange list option settled)
     = (busyEngine, None)"
    by (metis a(2) sendRequest_failures prod.collapse)
  from 1 2 3 t show ?thesis by simp
qed

text \<open>
  Claim C8 as stated fails: after an error that is not a cancellation the only call to
  a collaborator is the one to the logger; no diagnostic reaches the messaging of the
  user; and with the pass's token cancelled the error is not even logged.
\<close>

theorem sendRequest_no_message_counterexample:
  "trace (fst (sendRequest exampleHost 4
            (busyEngine, Rejected OtherError :: SemanticTokenRange list option settled))) = [Log_error]
   \<and> Show_error_message \<notin> set (trace (fst (sendRequest exampleHost 4
            (busyEngine, Rejected OtherError :: SemanticTokenRange list option settled))))
   \<and> trace (fst (sendRequest exampleHost 3
            (busyEngine, Rejected OtherError :: SemanticTokenRange list option settled))) = []"
  by (simp add: sendRequest_def act_def busyEngine_def isCancellationRequested_def)

section \<open>Traces, regions and the two strategies\<close>

lemma trace_cancel: "trace (cancel rangeOnly st) = trace st"
  by (cases rangeOnly) (simp_all add: cancel_True_fields cancel_False_fields)

lemma trace_runEvent: "trace (runEvent e st) = trace st @ eventActions [e]"
  by (cases e) (simp_all add: eventActions_def trace_cancel clearHighlight_def abandonResult_def act_def)

lemma trace_runEvents: "trace (runEvents evs st) = trace st @ eventActions evs"
proof (induction evs arbitrary: st)
  case Nil
  then show ?case by (simp add: runEvents_def eventActions_def)
next
  case (Cons e evs)
  have "runEvents (e # evs) st = runEvents evs (runEvent e st)" by (simp add: runEvents_def)
  moreover have "eventActions (e # evs) = eventActions [e] @ eventActions evs"
    by (simp add: eventActions_def)
  ultimately show ?case using Cons.IH[of "runEvent e st"] by (simp add: trace_runEvent)
qed

lemma runEvents_Nil: "runEvents [] st = st"
  by (simp add: runEvents_def)

lemma regionAction_eventActions: "list_all regionAction (eventActions evs)"
  by (induction evs) (simp_all add: eventActions_def regionAction_def)

lemma act_fields:
  "regions (act a st) = regions st"
  "cancelledSources (act a st) = cancelledSources st"
  "highlightsCache (act a st) = highlightsCache st"
  "previousResults (act a st) = previousResults st"
  "dirty (act a st) = dirty st"
  "docVersion (act a st) = docVersion st"
  "tokenSource (act a st) = tokenSource st"
  "rangeTokenSource (act a st) = rangeTokenSource st"
  "sources (act a st) = sources st"
  "trace (act a st) = trace st @ [a]"
  "isCancellationRequested token (act a st) = isCancellationRequested token st"
  by (simp_all add: act_def isCancellationRequested_def)

lemma regionsLoop_skip:
  "\<not> skipCheck \<Longrightarrow> regions_has (regions st) start stop \<Longrightarrow>
   regionsLoop h token skipCheck spans ((start, stop) # rest) answers st
     = regionsLoop h token skipCheck spans rest answers st"
  by simp

lemma regionsLoop_step:
  "\<not> (\<not> skipCheck \<and> regions_has (regions st) start stop) \<Longrightarrow>
   regionsLoop h token skipCheck spans ((start, stop) # rest) answers st
     = (let st1 = runEvents (case answers of [] \<Rightarrow> [] | d # _ \<Rightarrow> snd d)
                    (act (Diff_highlights (toHighlightItems h spans (Some (start, stop)))
                            (Some (start, stop))) st)
        in if isCancellationRequested token st1 then st1
           else regionsLoop h token skipCheck spans rest (tl answers)
                  (case (case answers of [] \<Rightarrow> None | d # _ \<Rightarrow> fst d) of
                     Some d \<Rightarrow> act (Apply_diff d True) (st1\<lparr>regions := regions_add (regions st1) start stop\<rparr>)
                   | None \<Rightarrow> st1\<lparr>regions := regions_add (regions st1) start stop\<rparr>))"
  by (auto simp: Let_def)

lemma trace_regionsLoop:
  "\<exists>xs. trace (regionsLoop h token skipCheck spans ms answers st) = trace st @ xs \<and> list_all regionAction xs"
proof (induction ms arbitrary: answers st)
  case Nil
  then show ?case by simp
next
  case (Cons m ms)
  obtain start stop where m: "m = (start, stop)" by (cases m)
  show ?case
  proof (cases "\<not> skipCheck \<and> regions_has (regions st) start stop")
    case True
    then show ?thesis using Cons.IH[of answers st] by (simp add: m regionsLoop_skip del: regionsLoop.simps)
  next
    case False
    let ?items = "toHighlightItems h spans (Some (start, stop))"
    let ?diff = "case answers of [] \<Rightarrow> None | d # _ \<Rightarrow> fst d"
    let ?evs = "case answers of [] \<Rightarrow> [] | d # _ \<Rightarrow> snd d"
    let ?st1 = "runEvents ?evs (act (Diff_highlights ?items (Some (start, stop))) st)"
    have t1: "trace ?st1 = trace st @ Diff_highlights ?items (Some (start, stop)) # eventActions ?evs"
      by (simp add: trace_runEvents act_def)
    have r1: "list_all regionAction (Diff_highlights ?items (Some (start, stop)) # eventActions ?evs)"
      by (simp add: regionAction_eventActions) (simp add: regionAction_def)
    show ?thesis
    proof (cases "isCancellationRequested token ?st1")
      case True
      then show ?thesis using t1 r1
        by (simp only: m regionsLoop_step[OF False] Let_def if_True) blast
    next
      case nc: False
      let ?st2 = "?st1\<lparr>regions := regions_add (regions ?st1) start stop\<rparr>"
      let ?st3 = "case ?diff of Some d \<Rightarrow> act (Apply_diff d True) ?st2 | None \<Rightarrow> ?st2"
      have t3: "\<exists>ys. trace ?st3 = trace ?st1 @ ys \<and> list_all regionAction ys"
        by (cases ?diff) (simp_all add: act_def regionAction_def)
      then obtain ys where ys: "trace ?st3 = trace ?st1 @ ys" "list_all regionAction ys" by blast
      obtain zs where zs: "trace (regionsLoop h token skipCheck spans ms (tl answers) ?st3) = trace ?st3 @ zs"
        "list_all regionAction zs" using Cons.IH[of "tl answers" ?st3] by blast
      have "regionsLoop h token skipCheck spans (m # ms) answers st
              = regionsLoop h token skipCheck spans ms (tl answers) ?st3"
        using nc by (simp only: m regionsLoop_step[OF False] Let_def if_False)
      then show ?thesis
        using zs ys t1 r1 by (simp add: list_all_append)
    qed
  qed
qed

lemma regions_insert_covers: "list_ex (\<lambda>(a, b). a \<le> s \<and> e \<le> b) (regions_insert (s, e) rs)"
proof (induction "(s, e)" rs arbitrary: s e rule: regions_insert.induct)
  case (1 s e)
  then show ?case by simp
next
  case (2 s e a b rs)
  show ?case
  proof (cases "e < a")
    case True
    then show ?thesis by simp
  next
    case False
    show ?thesis
    proof (cases "b < s")
      case True
      then show ?thesis using False "2.hyps"(1) by simp
    next
      case nb: False
      have "list_ex (\<lambda>(a', b'). a' \<le> min s a \<and> max e b \<le> b') (regions_insert (min s a, max e b) rs)"
        using "2.hyps"(2)[OF False nb] by simp
      then obtain p where p: "p \<in> set (regions_insert (min s a, max e b) rs)"
            "fst p \<le> min s a" "max e b \<le> snd p"
        by (auto simp: list_ex_iff)
      then have "fst p \<le> s \<and> e \<le> snd p" by auto
      with p(1) have "list_ex (\<lambda>(a', b'). a' \<le> s \<and> e \<le> b') (regions_insert (min s a, max e b) rs)"
        unfolding list_ex_iff by (intro bexI[of _ p]) (simp_all add: split_beta)
      then show ?thesis using False nb by simp
    qed
  qed
qed

lemma regions_insert_keeps:
  "list_ex (\<lambda>(a, b). a \<le> s \<and> e \<le> b) rs \<Longrightarrow> list_ex (\<lambda>(a, b). a \<le> s \<and> e \<le> b) (regions_insert x rs)"
proof (induction x rs rule: regions_insert.induct)
  case (1 s' e')
  then show ?case by simp
next
  case (2 s' e' a b rs)
  show ?case
  proof (cases "e' < a")
    case True
    then show ?thesis using "2.prems" by simp
  next
    case False
    show ?thesis
    proof (cases "b < s'")
      case True
      then show ?thesis using False "2.prems" "2.IH"(1) by auto
    next
      case nb: False
      have cov: "list_ex (\<lambda>(a', b'). a' \<le> min s' a \<and> max e' b \<le> b') (regions_insert (min s' a, max e' b) rs)"
        by (rule regions_insert_covers)
      show ?thesis
      proof (cases "a \<le> s \<and> e \<le> b")
        case True
        from cov obtain p where p: "p \<in> set (regions_insert (min s' a, max e' b) rs)"
            "fst p \<le> min s' a" "max e' b \<le> snd p"
          by (auto simp: list_ex_iff)
        with True have "fst p \<le> s \<and> e \<le> snd p" by auto
        with p(1) have "list_ex (\<lambda>(a', b'). a' \<le> s \<and> e \<le> b') (regions_insert (min s' a, max e' b) rs)"
          unfolding list_ex_iff by (intro bexI[of _ p]) (simp_all add: split_beta)
        then show ?thesis using False nb by simp
      next
        case nh: False
        with "2.prems" have "list_ex (\<lambda>(a, b). a \<le> s \<and> e \<le> b) rs" by auto
        then show ?thesis using "2.IH"(2)[OF False nb] False nb by simp
      qed
    qed
  qed
qed

lemma regions_has_add: "regions_has (regions_add rs s e) s e"
  by (simp add: regions_has_def regions_add_def regions_insert_covers)

lemma regions_has_add_keeps: "regions_has rs s e \<Longrightarrow> regions_has (regions_add rs s' e') s e"
  by (simp add: regions_has_def regions_add_def regions_insert_keeps)

lemma mergeSpans_two:
  "mergeSpans [(a1, a2), (b1, b2)] =
     (if b2 < a1 then [(b1, b2), (a1, a2)]
      else if a2 < b1 then [(a1, a2), (b1, b2)]
      else [(min b1 a1, max b2 a2)])"
  by (simp add: mergeSpans_def)

lemma expand_example: "envLines h = 20 \<Longrightarrow> 50 \<le> lineCount h \<Longrightarrow> expandSpan h (10, 20) = (0, 50)"
  by (simp add: expandSpan_def Let_def)

lemma regionsLoop_keeps_painted:
  assumes "quiet answers" "\<not> isCancellationRequested token st" "regions_has (regions st) s e"
  shows "regions_has (regions (regionsLoop h token skipCheck spans ms answers st)) s e
         \<and> \<not> isCancellationRequested token (regionsLoop h token skipCheck spans ms answers st)"
  using assms
proof (induction ms arbitrary: answers st)
  case Nil
  then show ?case by simp
next
  case (Cons m ms)
  obtain start stop where m: "m = (start, stop)" by (cases m)
  show ?case
  proof (cases "\<not> skipCheck \<and> regions_has (regions st) start stop")
    case True
    then show ?thesis using Cons.IH[OF Cons.prems] by (simp add: m regionsLoop_skip del: regionsLoop.simps)
  next
    case False
    have evs: "(case answers of [] \<Rightarrow> [] | d # _ \<Rightarrow> snd d) = []"
      using Cons.prems(1) by (cases answers) (simp_all add: quiet_def)
    have q: "quiet (tl answers)" using Cons.prems(1) by (cases answers) (simp_all add: quiet_def)
    let ?st1 = "act (Diff_highlights (toHighlightItems h spans (Some (start, stop))) (Some (start, stop))) st"
    let ?st2 = "?st1\<lparr>regions := regions_add (regions ?st1) start stop\<rparr>"
    let ?st3 = "case (case answers of [] \<Rightarrow> None | d # _ \<Rightarrow> fst d) of
                  Some d \<Rightarrow> act (Apply_diff d True) ?st2 | None \<Rightarrow> ?st2"
    have nc1: "\<not> isCancellationRequested token ?st1" using Cons.prems(2) by (simp add: act_fields)
    have nc3: "\<not> isCancellationRequested token ?st3"
      using Cons.prems(2) by (simp add: act_fields isCancellationRequested_def split: option.splits)
    have r3: "regions ?st3 = regions_add (regions st) start stop"
      by (simp add: act_fields split: option.splits)
    have h3: "regions_has (regions ?st3) s e"
      using Cons.prems(3) by (simp add: r3 regions_has_add_keeps)
    have eq: "regionsLoop h token skipCheck spans (m # ms) answers st
              = regionsLoop h token skipCheck spans ms (tl answers) ?st3"
      using nc1 by (simp only: m regionsLoop_step[OF False] Let_def evs runEvents_Nil if_False)
    show ?thesis unfolding eq by (rule Cons.IH[OF q nc3 h3])
  qed
qed

lemma regionsLoop_paints:
  assumes "quiet answers" "\<not> isCancellationRequested token st"
  shows "list_all (\<lambda>(s, e). regions_has (regions (regionsLoop h token skipCheck spans ms answers st)) s e) ms"
  using assms
proof (induction ms arbitrary: answers st)
  case Nil
  then show ?case by simp
next
  case (Cons m ms)
  obtain start stop where m: "m = (start, stop)" by (cases m)
  show ?case
  proof (cases "\<not> skipCheck \<and> regions_has (regions st) start stop")
    case True
    have eq: "regionsLoop h token skipCheck spans (m # ms) answers st
              = regionsLoop h token skipCheck spans ms answers st"
      using True by (simp add: m regionsLoop_skip del: regionsLoop.simps)
    have "regions_has (regions (regionsLoop h token skipCheck spans ms answers st)) start stop"
      using regionsLoop_keeps_painted[OF Cons.prems] True by blast
    then show ?thesis unfolding eq using Cons.IH[OF Cons.prems] by (simp add: m)
  next
    case False
    have evs: "(case answers of [] \<Rightarrow> [] | d # _ \<Rightarrow> snd d) = []"
      using Cons.prems(1) by (cases answers) (simp_all add: quiet_def)
    have q: "quiet (tl answers)" using Cons.prems(1) by (cases answers) (simp_all add: quiet_def)
    let ?st1 = "act (Diff_highlights (toHighlightItems h spans (Some (start, stop))) (Some (start, stop))) st"
    let ?st2 = "?st1\<lparr>regions := regions_add (regions ?st1) start stop\<rparr>"
    let ?st3 = "case (case answers of [] \<Rightarrow> None | d # _ \<Rightarrow> fst d) of
                  Some d \<Rightarrow> act (Apply_diff d True) ?st2 | None \<Rightarrow> ?st2"
    have nc1: "\<not> isCancellationRequested token ?st1" using Cons.prems(2) by (simp add: act_fields)
    have nc3: "\<not> isCancellationRequested token ?st3"
      using Cons.prems(2) by (simp add: act_fields isCancellationRequested_def split: option.splits)
    have r3: "regions ?st3 = regions_add (regions st) start stop"
      by (simp add: act_fields split: option.splits)
    have h3: "regions_has (regions ?st3) start stop"
      by (simp add: r3 regions_has_add)
    have eq: "regionsLoop h token skipCheck spans (m # ms) answers st
              = regionsLoop h token skipCheck spans ms (tl answers) ?st3"
      using nc1 by (simp only: m regionsLoop_step[OF False] Let_def evs runEvents_Nil if_False)
    have "regions_has (regions (regionsLoop h token skipCheck spans ms (tl answers) ?st3)) start stop"
      using regionsLoop_keeps_painted[OF q nc3 h3] by blast
    then show ?thesis unfolding eq using Cons.IH[OF q nc3] by (simp add: m)
  qed
qed

lemma trace_highlightRegions:
  "\<exists>xs. trace (highlightRegions h token skipCheck rg st) = trace st @ xs
        \<and> list_all (\<lambda>a. (regionAction a \<or> a = Visible_ranges) \<and> \<not> wholeDocumentDiff a) xs"
proof (cases "get_highlights st")
  case None
  then show ?thesis by (simp add: highlightRegions_def)
next
  case (Some spans)
  let ?st1 = "runEvents (visibleRanges_evs rg) (act Visible_ranges st)"
  have ra: "regionAction a \<Longrightarrow> (regionAction a \<or> a = Visible_ranges) \<and> \<not> wholeDocumentDiff a" for a
    by (cases a) (auto simp: regionAction_def wholeDocumentDiff_def split: option.splits)
  have t1: "trace ?st1 = trace st @ Visible_ranges # eventActions (visibleRanges_evs rg)"
    by (simp add: trace_runEvents act_fields)
  have a1: "list_all (\<lambda>a. (regionAction a \<or> a = Visible_ranges) \<and> \<not> wholeDocumentDiff a)
              (Visible_ranges # eventActions (visibleRanges_evs rg))"
    using regionAction_eventActions[of "visibleRanges_evs rg"] ra
    by (auto simp: list_all_iff wholeDocumentDiff_def)
  show ?thesis
  proof (cases "isCancellationRequested token ?st1 \<or> visibleRanges rg = []")
    case True
    then show ?thesis using Some t1 a1 by (simp add: highlightRegions_def Let_def del: list.pred_inject) 
  next
    case False
    obtain xs where xs: "trace (regionsLoop h token skipCheck spans
        (mergeSpans (map (expandSpan h) (visibleRanges rg))) (regionDiffs rg) ?st1) = trace ?st1 @ xs"
        "list_all regionAction xs"
      using trace_regionsLoop by blast
    have "list_all (\<lambda>a. (regionAction a \<or> a = Visible_ranges) \<and> \<not> wholeDocumentDiff a) xs"
      using xs(2) ra by (auto simp: list_all_iff)
    with a1 have "list_all (\<lambda>a. (regionAction a \<or> a = Visible_ranges) \<and> \<not> wholeDocumentDiff a)
              ((Visible_ranges # eventActions (visibleRanges_evs rg)) @ xs)"
      by (simp only: list_all_append)
    then show ?thesis using Some False xs(1) t1
      by (simp add: highlightRegions_def Let_def del: list.pred_inject)
  qed
qed

lemma trace_applyWholeDocument:
  "trace (applyWholeDocument h token version spans orc st) =
     trace st @ Diff_highlights (toHighlightItems h spans None) None # eventActions (diff_evs orc) @
       (if isCancellationRequested token
             (runEvents (diff_evs orc) (act (Diff_highlights (toHighlightItems h spans None) None) st))
           \<or> diffReply orc = None
        then []
        else Apply_diff (the (diffReply orc)) False # eventActions (apply_evs orc) @ [Fire_refresh])"
  by (simp add: applyWholeDocument_def Let_def trace_runEvents act_fields)

lemma regions_applyWholeDocument:
  "diff_evs orc = [] \<Longrightarrow> apply_evs orc = [] \<Longrightarrow>
     regions (applyWholeDocument h token version spans orc st) = regions st"
  by (simp add: applyWholeDocument_def Let_def runEvents_Nil act_fields)

lemma expandSpan_example_30: "expandSpan exampleHost (30, 40) = (0, 70)"
  by (simp add: expandSpan_def exampleHost_def Let_def)

lemma expandSpan_example_10: "expandSpan exampleHost (10, 20) = (0, 50)"
  by (simp add: expandSpan_def exampleHost_def Let_def)

text \<open>
  Claim C6. In doHighlight, once a decoded result is there and the token is not
  cancelled, the whole document is diffed and applied if and only if the buffer is not
  dirty yet or there are fewer than 200 spans; otherwise the painted-region record is
  cleared and highlightRegions runs. Exactly one of the two runs: the whole-document
  strategy makes one diff without a range and never asks for the visible ranges, and the
  strategy by regions makes no diff of the whole document.
\<close>

theorem strategy_choice:
  assumes "\<not> isCancellationRequested token st"
  shows "applyTokenRanges h token version (Some spans) orc st =
           (if \<not> dirty st \<or> length spans < 200 then applyWholeDocument h token version spans orc st
            else applyVisibleRegions h token orc st)
   \<and> trace (applyWholeDocument h token version spans orc st) =
       trace st @ Diff_highlights (toHighlightItems h spans None) None # eventActions (diff_evs orc) @
         (if isCancellationRequested token
               (runEvents (diff_evs orc) (act (Diff_highlights (toHighlightItems h spans None) None) st))
             \<or> diffReply orc = None
          then []
          else Apply_diff (the (diffReply orc)) False # eventActions (apply_evs orc) @ [Fire_refresh])
   \<and> (diff_evs orc = [] \<and> apply_evs orc = [] \<longrightarrow>
        regions (applyWholeDocument h token version spans orc st) = regions st)
   \<and> applyVisibleRegions h token orc st =
       act Fire_refresh (highlightRegions h token False (regionsPass orc) (st\<lparr>regions := []\<rparr>))
   \<and> (\<exists>xs. trace (applyVisibleRegions h token orc st) = trace st @ xs @ [Fire_refresh]
         \<and> list_all (\<lambda>a. (regionAction a \<or> a = Visible_ranges) \<and> \<not> wholeDocumentDiff a) xs)"
proof -
  have 1: "applyTokenRanges h token version (Some spans) orc st =
           (if \<not> dirty st \<or> length spans < 200 then applyWholeDocument h token version spans orc st
            else applyVisibleRegions h token orc st)"
    using assms by (simp add: applyTokenRanges_def)
  have 4: "applyVisibleRegions h token orc st =
       act Fire_refresh (highlightRegions h token False (regionsPass orc) (st\<lparr>regions := []\<rparr>))"
    by (simp add: applyVisibleRegions_def regions_clear_def)
  obtain xs where xs: "trace (highlightRegions h token False (regionsPass orc) (st\<lparr>regions := []\<rparr>))
       = trace (st\<lparr>regions := []\<rparr>) @ xs"
     "list_all (\<lambda>a. (regionAction a \<or> a = Visible_ranges) \<and> \<not> wholeDocumentDiff a) xs"
    using trace_highlightRegions by blast
  have 5: "\<exists>xs. trace (applyVisibleRegions h token orc st) = trace st @ xs @ [Fire_refresh]
         \<and> list_all (\<lambda>a. (regionAction a \<or> a = Visible_ranges) \<and> \<not> wholeDocumentDiff a) xs"
    unfolding 4 using xs by (auto simp: act_fields)
  from 1 4 5 trace_applyWholeDocument regions_applyWholeDocument show ?thesis by blast
qed

theorem strategy_choice_witness:
  "\<not> isCancellationRequested 4 busyEngine
   \<and> applyTokenRanges exampleHost 4 3 (Some [exampleSpan]) (quietPass NoResult) busyEngine
       = applyWholeDocument exampleHost 4 3 [exampleSpan] (quietPass NoResult) busyEngine
   \<and> applyTokenRanges exampleHost 4 3 (Some (replicate 200 exampleSpan)) (quietPass NoResult) busyEngine
       = applyVisibleRegions exampleHost 4 (quietPass NoResult) busyEngine
   \<and> applyTokenRanges exampleHost 4 3 (Some (replicate 200 exampleSpan)) (quietPass NoResult)
         (busyEngine\<lparr>dirty := False\<rparr>)
       = applyWholeDocument exampleHost 4 3 (replicate 200 exampleSpan) (quietPass NoResult)
           (busyEngine\<lparr>dirty := False\<rparr>)"
proof -
  have nc: "\<not> isCancellationRequested 4 busyEngine"
    by (simp add: busyEngine_def isCancellationRequested_def)
  have nc': "\<not> isCancellationRequested 4 (busyEngine\<lparr>dirty := False\<rparr>)"
    by (simp add: busyEngine_def isCancellationRequested_def)
  have d: "dirty busyEngine" by (simp add: busyEngine_def)
  show ?thesis
    using nc d strategy_choice[OF nc, of exampleHost 3 "[exampleSpan]" "quietPass NoResult"]
      strategy_choice[OF nc, of exampleHost 3 "replicate 200 exampleSpan" "quietPass NoResult"]
      strategy_choice[OF nc', of exampleHost 3 "replicate 200 exampleSpan" "quietPass NoResult"]
    by simp
qed

text \<open>
  Claim C7. highlightRegions expands a visible span \<open>[s, e)\<close> with the height \<open>h\<close> to
  \<open>[max 0 \<lfloor>s - 1.5 h\<rfloor>, min lineCount \<lceil>e + 1.5 h\<rceil> (s + 2 h))\<close>, merges the expanded
  spans that overlap into one, skips a merged span that is recorded as painted, and
  marks each span it processes as painted. The viewport \<open>[10, 20)\<close> with height 20 (and
  at least 50 lines) expands to \<open>[0, 50)\<close>, and two overlapping expanded viewports give
  one span to repaint.
\<close>

theorem highlightRegions_spans:
  "expandSpan h (s, e) =
     (max 0 \<lfloor>real_of_int s - 1.5 * real_of_int (envLines h)\<rfloor>,
      min (lineCount h) (min \<lceil>real_of_int e + 1.5 * real_of_int (envLines h)\<rceil> (s + 2 * envLines h)))
   \<and> (envLines h = 20 \<and> 50 \<le> lineCount h \<longrightarrow> expandSpan h (10, 20) = (0, 50))
   \<and> (b1 \<le> a2 \<and> a1 \<le> b2 \<longrightarrow> mergeSpans [(a1, a2), (b1, b2)] = [(min a1 b1, max a2 b2)])
   \<and> (get_highlights st = Some spans \<and> visibleRanges rg \<noteq> []
        \<and> \<not> isCancellationRequested token (runEvents (visibleRanges_evs rg) (act Visible_ranges st)) \<longrightarrow>
        highlightRegions h token skipCheck rg st =
          regionsLoop h token skipCheck spans (mergeSpans (map (expandSpan h) (visibleRanges rg)))
            (regionDiffs rg) (runEvents (visibleRanges_evs rg) (act Visible_ranges st)))
   \<and> (regions_has (regions st) start stop \<longrightarrow>
        regionsLoop h token False spans ((start, stop) # rest) answers st
          = regionsLoop h token False spans rest answers st)
   \<and> (quiet answers \<and> \<not> isCancellationRequested token st \<longrightarrow>
        list_all (\<lambda>(s, e). regions_has (regions (regionsLoop h token skipCheck spans ms answers st)) s e) ms)"
proof -
  have 1: "expandSpan h (s, e) =
     (max 0 \<lfloor>real_of_int s - 1.5 * real_of_int (envLines h)\<rfloor>,
      min (lineCount h) (min \<lceil>real_of_int e + 1.5 * real_of_int (envLines h)\<rceil> (s + 2 * envLines h)))"
    by (simp add: expandSpan_def Let_def mult.commute)
  have 3: "b1 \<le> a2 \<and> a1 \<le> b2 \<longrightarrow> mergeSpans [(a1, a2), (b1, b2)] = [(min a1 b1, max a2 b2)]"
    by (auto simp: mergeSpans_two min.commute max.commute)
  have 4: "get_highlights st = Some spans \<and> visibleRanges rg \<noteq> []
        \<and> \<not> isCancellationRequested token (runEvents (visibleRanges_evs rg) (act Visible_ranges st)) \<longrightarrow>
        highlightRegions h token skipCheck rg st =
          regionsLoop h token skipCheck spans (mergeSpans (map (expandSpan h) (visibleRanges rg)))
            (regionDiffs rg) (runEvents (visibleRanges_evs rg) (act Visible_ranges st))"
    by (simp add: highlightRegions_def Let_def)
  have 5: "regions_has (regions st) start stop \<longrightarrow>
        regionsLoop h token False spans ((start, stop) # rest) answers st
          = regionsLoop h token False spans rest answers st"
    by simp
  from 1 3 4 5 expand_example regionsLoop_paints show ?thesis by blast
qed

theorem highlightRegions_spans_witness:
  "expandSpan exampleHost (10, 20) = (0, 50)
   \<and> mergeSpans (map (expandSpan exampleHost) [(10, 20), (30, 40)]) = [(0, 70)]
   \<and> regions (highlightRegions exampleHost 5 False quietRegions (busyEngine\<lparr>regions := []\<rparr>)) = [(0, 70)]
   \<and> trace (highlightRegions exampleHost 5 False quietRegions (busyEngine\<lparr>regions := []\<rparr>))
        = [Visible_ranges, Diff_highlights [] (Some (0, 70))]
   \<and> trace (highlightRegions exampleHost 5 False quietRegions (busyEngine\<lparr>regions := [(0, 70)]\<rparr>))
        = [Visible_ranges]"
proof -
  have e: "envLines exampleHost = 20 \<and> 50 \<le> lineCount exampleHost" by (simp add: exampleHost_def)
  have 1: "expandSpan exampleHost (10, 20) = (0, 50)"
    using highlightRegions_spans[of exampleHost] e by blast
  have 2: "mergeSpans (map (expandSpan exampleHost) [(10, 20), (30, 40)]) = [(0, 70)]"
    using highlightRegions_spans[of exampleHost 10 20 0 50 0 70] 
    by (simp add: 1 expandSpan_example_30)
  have g: "get_highlights (busyEngine\<lparr>regions := rs\<rparr>) = Some []" for rs
    by (simp add: get_highlights_def busyEngine_def)
  have nc: "\<not> isCancellationRequested 5 (runEvents (visibleRanges_evs quietRegions)
              (act Visible_ranges (busyEngine\<lparr>regions := rs\<rparr>)))" for rs
    by (simp add: quietRegions_def runEvents_Nil act_fields isCancellationRequested_def busyEngine_def)
  have v: "visibleRanges quietRegions = [(10, 20), (30, 40)]" "visibleRanges quietRegions \<noteq> []"
    "regionDiffs quietRegions = []" "visibleRanges_evs quietRegions = []"
    by (simp_all add: quietRegions_def)
  have hr: "highlightRegions exampleHost 5 False quietRegions (busyEngine\<lparr>regions := rs\<rparr>)
      = regionsLoop exampleHost 5 False [] [(0, 70)] [] (act Visible_ranges (busyEngine\<lparr>regions := rs\<rparr>))" for rs
    using highlightRegions_spans[of exampleHost _ _ _ _ _ _ "busyEngine\<lparr>regions := rs\<rparr>" "[]" quietRegions 5 False]
      g[of rs] nc[of rs] v 2 by (simp add: runEvents_Nil)
  have 3: "regions (highlightRegions exampleHost 5 False quietRegions (busyEngine\<lparr>regions := []\<rparr>)) = [(0, 70)]"
    unfolding hr
    by (simp add: act_fields regions_has_def regions_add_def runEvents_Nil isCancellationRequested_def
          busyEngine_def act_def)
  have 4: "trace (highlightRegions exampleHost 5 False quietRegions (busyEngine\<lparr>regions := []\<rparr>))
        = [Visible_ranges, Diff_highlights [] (Some (0, 70))]"
    unfolding hr
    by (simp add: act_fields regions_has_def regions_add_def runEvents_Nil isCancellationRequested_def
          busyEngine_def act_def)
  have 5: "trace (highlightRegions exampleHost 5 False quietRegions (busyEngine\<lparr>regions := [(0, 70)]\<rparr>))
        = [Visible_ranges]"
    unfolding hr
    by (simp add: act_fields regions_has_def busyEngine_def act_def)
  from 1 2 3 4 5 show ?thesis by simp
qed

section \<open>Requests and cancellation in a pass\<close>

lemma quietlyExtends_iff:
  "quietlyExtends st st' \<longleftrightarrow> (\<exists>xs. trace st' = trace st @ xs \<and> filter providerRequest xs = [])"
proof
  assume "quietlyExtends st st'"
  then have "trace st' = trace st @ newActions st st'" "filter providerRequest (newActions st st') = []"
    unfolding quietlyExtends_def newActions_def by (metis append_take_drop_id, simp)
  then show "\<exists>xs. trace st' = trace st @ xs \<and> filter providerRequest xs = []" by blast
next
  assume "\<exists>xs. trace st' = trace st @ xs \<and> filter providerRequest xs = []"
  then show "quietlyExtends st st'"
    by (auto simp: quietlyExtends_def newActions_def)
qed

lemma quietlyExtends_refl: "quietlyExtends st st"
  by (simp add: quietlyExtends_iff)

lemma quietlyExtends_trans: "quietlyExtends a b \<Longrightarrow> quietlyExtends b c \<Longrightarrow> quietlyExtends a c"
  by (auto simp: quietlyExtends_iff)

lemma quiet_eventActions: "filter providerRequest (eventActions evs) = []"
  by (induction evs) (simp_all add: eventActions_def providerRequest_def)

lemma quietlyExtends_runEvents: "quietlyExtends st (runEvents evs st)"
  by (simp add: quietlyExtends_iff trace_runEvents quiet_eventActions)

lemma decodeLoop_rel:
  assumes R_refl: "\<And>w. R w w" and R_trans: "\<And>a b c. R a b \<Longrightarrow> R b c \<Longrightarrow> R a c"
    and ticks: "list_all (\<lambda>t. case t of None \<Rightarrow> True | Some f \<Rightarrow> (\<forall>w. R w (f w))) ticks"
  shows "R w (fst (decodeLoop h legend isCancelled ticks w l c ts hs))"
  using ticks
proof (induction h legend isCancelled ticks w l c ts hs rule: decodeLoop.induct)
  case (1 h legend isCancelled ticks w currentLine currentCharacter highlights)
  then show ?case by (simp add: R_refl)
next
  case (2 h legend isCancelled ticks w l c t ts hs)
  obtain lnum sc hs' where st: "decodeStep h legend l c (t # ts) hs = (lnum, sc, hs')"
    by (cases "decodeStep h legend l c (t # ts) hs") auto
  have step: "R w (resume ticks w)"
    using "2.prems" by (cases ticks) (auto simp: resume_def R_refl split: option.splits)
  have tl: "list_all (\<lambda>t. case t of None \<Rightarrow> True | Some f \<Rightarrow> (\<forall>w. R w (f w))) (tl ticks)"
    using "2.prems" by (cases ticks) simp_all
  show ?case
  proof (cases "yields ticks \<and> isCancelled (resume ticks w)")
    case True
    then show ?thesis using step by simp
  next
    case False
    from "2.IH"[OF False st[symmetric] refl tl] step show ?thesis
      using False by (simp add: st) (metis R_trans)
  qed
qed

lemma engineTicks_rel:
  assumes "\<And>evs st. R st (runEvents evs st)"
  shows "list_all (\<lambda>t. case t of None \<Rightarrow> True | Some f \<Rightarrow> (\<forall>w. R w (f w))) (engineTicks ticks)"
  using assms by (induction ticks) (auto simp: engineTicks_def split: option.splits)

lemma quietlyExtends_getTokenRangesWith:
  "quietlyExtends st (fst (getTokenRangesWith h tokens legend isC (engineTicks ticks) st))"
proof -
  have d: "quietlyExtends w (fst (decodeLoop h lg isC (engineTicks ticks) w l c ts hs))" for w lg l c ts hs
    by (rule decodeLoop_rel[where R = quietlyExtends, OF quietlyExtends_refl quietlyExtends_trans
          engineTicks_rel]) (simp_all add: quietlyExtends_runEvents)
  have r: "quietlyExtends st (resume (engineTicks ticks) st)"
    by (cases ticks) (auto simp: resume_def engineTicks_def quietlyExtends_refl quietlyExtends_runEvents
          split: option.splits)
  show ?thesis
  proof (cases legend)
    case None
    then show ?thesis using r by (simp add: getTokenRangesWith_def quietlyExtends_refl)
  next
    case (Some lg)
    then show ?thesis using d[of st lg "Num 0" "Num 0" tokens "[]"]
      by (simp add: getTokenRangesWith_def getTokenRanges_def split_beta)
  qed
qed






lemma applyTokenRanges_cancelled:
  "isCancellationRequested token st \<Longrightarrow> applyTokenRanges h token version r orc st = st"
  by (simp add: applyTokenRanges_def split: option.splits)

lemma applyTokenRanges_None: "applyTokenRanges h token version None orc st = st"
  by (simp add: applyTokenRanges_def)


lemma act_requestIssued:
  "(case (if forceFull then None else previousResults st) of
      Some pr \<Rightarrow> if hasEditProvider h \<and> truthy (prev_resultId pr)
                 then act (Provide_edits (the (prev_resultId pr))) st
                 else act Provide_full st
    | None \<Rightarrow> act Provide_full st) = act (requestIssued h forceFull st) st"
  by (simp add: requestIssued_def split: option.splits)

lemma quietlyExtends_field_update:
  "quietlyExtends st (st'\<lparr>previousResults := p\<rparr>) = quietlyExtends st st'"
  "quietlyExtends st (st'\<lparr>highlightsCache := c\<rparr>) = quietlyExtends st st'"
  "quietlyExtends st (st'\<lparr>timer := t\<rparr>) = quietlyExtends st st'"
  by (simp_all add: quietlyExtends_def newActions_def)

lemma quietlyExtends_requestAllHighlights:
  "quietlyExtends (act (requestIssued h forceFull st) st)
     (fst (requestAllHighlights h token forceFull fo st))"
proof -
  let ?st1 = "act (requestIssued h forceFull st) st"
  let ?st2 = "runEvents (fullReply_evs fo) ?st1"
  have 2: "quietlyExtends ?st1 ?st2" by (rule quietlyExtends_runEvents)
  have 3: "quietlyExtends ?st1 (fst (getTokenRangesWith h tokens legend isC (engineTicks ticks)
             (?st2\<lparr>previousResults := p\<rparr>)))" for tokens legend isC ticks p
    using quietlyExtends_trans[OF _ quietlyExtends_getTokenRangesWith, of ?st1 "?st2\<lparr>previousResults := p\<rparr>"]
      2 by (simp add: quietlyExtends_field_update)
  show ?thesis
    unfolding requestAllHighlights_def Let_def act_requestIssued
    using 2 3 by (auto split: settled.splits reply.splits option.splits)
qed

lemma quietlyExtends_storeTokenRanges:
  "quietlyExtends st (storeTokenRanges version r st') = quietlyExtends st st'"
  by (cases r) (simp_all add: storeTokenRanges_def quietlyExtends_field_update)

lemma quietlyExtends_sendRequest:
  "quietlyExtends st (fst sf) \<Longrightarrow> quietlyExtends st (fst (sendRequest h token sf))"
proof -
  assume a: "quietlyExtends st (fst sf)"
  obtain st' out where sf: "sf = (st', out)" by (cases sf)
  have l: "quietlyExtends st' (act Log_error st')"
    by (simp add: quietlyExtends_iff act_fields providerRequest_def)
  show ?thesis
    using a quietlyExtends_trans[OF _ l, of st]
    by (cases out) (auto simp: sf sendRequest_def quietlyExtends_field_update)
qed

lemma newActions_after_request:
  assumes "quietlyExtends (act a st) st'"
  shows "filter providerRequest (newActions st st') = filter providerRequest [a]"
proof -
  from assms obtain xs where "trace st' = trace (act a st) @ xs" "filter providerRequest xs = []"
    by (auto simp: quietlyExtends_iff)
  then show ?thesis by (simp add: newActions_def act_fields)
qed

lemma providerRequest_requestIssued: "providerRequest (requestIssued h forceFull st)"
  by (simp add: requestIssued_def providerRequest_def split: option.splits)

lemma requests_when_fetching:
  "filter providerRequest (newActions st (fst (fetchTokenRanges h token forceFull version fo st))) =
     (case previousResults st of
        Some pr \<Rightarrow> if version = prev_version pr then [] else [requestIssued h forceFull st]
      | None \<Rightarrow> [requestIssued h forceFull st])"
proof -
  let ?req = "fst (fetchTokenRanges h token forceFull version fo st)"
  have request: "filter providerRequest
      (newActions st (storeTokenRanges version r
         (fst (sendRequest h token (requestAllHighlights h token forceFull fo st)))))
      = [requestIssued h forceFull st]" for r
    using newActions_after_request[of "requestIssued h forceFull st" st
        "storeTokenRanges version r (fst (sendRequest h token (requestAllHighlights h token forceFull fo st)))"]
      quietlyExtends_sendRequest[OF quietlyExtends_requestAllHighlights, of h forceFull st h token token fo]
    by (simp add: quietlyExtends_storeTokenRanges providerRequest_requestIssued)
  have cached: "filter providerRequest (newActions st (storeTokenRanges v r
      (fst (getTokenRangesWith h tokens legend isC (engineTicks ticks) st)))) = []"
    for v r tokens legend isC ticks
    using quietlyExtends_getTokenRangesWith[of st h tokens legend isC ticks]
    by (simp add: quietlyExtends_def newActions_def storeTokenRanges_def split: option.splits)
  have cached': "filter providerRequest (newActions st 
      (fst (getTokenRangesWith h tokens legend isC (engineTicks ticks) st))) = []"
    for tokens legend isC ticks
    using quietlyExtends_getTokenRangesWith[of st h tokens legend isC ticks]
    by (simp add: quietlyExtends_def)
  have same: "filter providerRequest (newActions st st) = []" by (simp add: newActions_def)
  show ?thesis
    unfolding fetchTokenRanges_def
    by (auto simp: request cached cached' same split_beta split: option.splits prod.splits settled.splits)
qed

lemma requestAllHighlights_delta:
  assumes "previousResults st = Some pr" "\<not> forceFull" "fullReply fo = Resolved (Delta rid edits)"
    and "\<not> isCancellationRequested token
           (runEvents (fullReply_evs fo) (act (requestIssued h forceFull st) st))"
  shows "requestAllHighlights h token forceFull fo st =
     getTokenRangesWith h (fold spliceEdit edits (prev_tokens pr)) (fullLegend h)
       (isCancellationRequested token) (engineTicks (fullTicks fo))
       ((runEvents (fullReply_evs fo) (act (requestIssued h forceFull st) st))
          \<lparr>previousResults := Some \<lparr>prev_version = docVersion st, prev_resultId = rid,
                                      prev_tokens = fold spliceEdit edits (prev_tokens pr)\<rparr>\<rparr>)"
  using assms(4) unfolding requestAllHighlights_def Let_def act_requestIssued
  by (simp add: assms(1,2,3) replyId_def)

lemma decodeLoop_no_ticks:
  "decodeLoop h legend isCancelled [] w l c ts hs
     = (w, snd (decodeLoop h legend neverCancelled [] w l c ts hs))"
proof (induction h legend isCancelled "[] :: ('a \<Rightarrow> 'a) option list" w l c ts hs rule: decodeLoop.induct)
  case (1 h legend isCancelled w currentLine currentCharacter highlights)
  then show ?case by simp
next
  case (2 h legend isCancelled w l c t ts hs)
  obtain lnum sc hs' where st: "decodeStep h legend l c (t # ts) hs = (lnum, sc, hs')"
    by (cases "decodeStep h legend l c (t # ts) hs") auto
  have y: "\<not> (yields ([] :: ('a \<Rightarrow> 'a) option list) \<and> P)" for P by (simp add: yields_def)
  have r: "resume [] w = w" by (simp add: resume_def)
  from "2.hyps"[OF y st[symmetric] refl] show ?case
    by (simp add: st y r)
qed

lemma getTokenRanges_no_ticks:
  assumes "length tokens mod 5 = 0" "length (legendModifiers legend) \<le> 32" "exactRange tokens"
  shows "getTokenRanges h tokens legend isCancelled [] w
           = (w, if isCancelled w then None else Some (referenceDecode h legend tokens))"
proof -
  have ex: "list_all representable tokens" "list_all exactPosition (cursorDecode 0 0 (groupsOf tokens))"
    using assms(3) by (simp_all add: exactRange_def)
  show ?thesis
    using decodeLoop_wellformed[OF assms(1,2) ex, of h "[]" w "[]"]
    by (simp add: getTokenRanges_def decodeLoop_no_ticks[of h legend isCancelled] referenceDecode_def)
qed

lemma getTokenRangesWith_no_ticks:
  assumes "length tokens mod 5 = 0" "length (legendModifiers legend) \<le> 32" "exactRange tokens"
  shows "getTokenRangesWith h tokens (Some legend) isCancelled (engineTicks []) w
           = (w, Resolved (if isCancelled w then None else Some (referenceDecode h legend tokens)))"
  by (simp add: getTokenRangesWith_def engineTicks_def getTokenRanges_no_ticks[OF assms])

lemma referenceDecode_example:
  "referenceDecode exampleHost exampleLegend [0, 0, 5, 0, 0] = [exampleSpan]"
  by code_simp

lemma exactRange_example: "exactRange [0, 0, 5, 0, 0]"
  by (rule exactRange_sum) simp

lemma exampleHost_fields:
  "fullLegend exampleHost = Some exampleLegend" "hasEditProvider exampleHost"
  "hasFullProvider exampleHost" "\<not> hasRangeProvider exampleHost" "enabled exampleHost"
  "envLines exampleHost = 20" "lineCount exampleHost = 100" "requestDelay exampleHost = 500"
  by (simp_all add: exampleHost_def enabled_def configEnabled_def hasLegend_def hasProvider_def)

lemma exampleLegend_narrow: "length (legendModifiers exampleLegend) \<le> 32"
  by (simp add: exampleLegend_def)

lemma fetch_stale: "fetchTokenRanges exampleHost 4 False 4 deltaReply staleEngine =
  (staleEngine\<lparr>trace := [Provide_edits ''r3''],
      previousResults := Some \<lparr>prev_version = 4, prev_resultId = Some ''r4'', prev_tokens = [0, 0, 5, 0, 0]\<rparr>,
      highlightsCache := Some (4, [exampleSpan])\<rparr>, Resolved (Some [exampleSpan]))"
proof -
  have g: "getTokenRangesWith exampleHost [0, 0, 5, 0, 0] (Some exampleLegend) isC (engineTicks []) w
      = (w, Resolved (if isC w then None else Some [exampleSpan]))" for isC and w :: engine
    using getTokenRangesWith_no_ticks[of "[0, 0, 5, 0, 0]" exampleLegend exampleHost isC w]
    by (simp add: exampleLegend_narrow referenceDecode_example exactRange_example)
  show ?thesis
    by (simp add: fetchTokenRanges_def staleEngine_def busyEngine_def requestAllHighlights_def
        sendRequest_def storeTokenRanges_def deltaReply_def exampleHost_fields truthy_def act_def
        runEvents_def isCancellationRequested_def replyId_def spliceEdit_def g Let_def)
qed

lemma fetch_same_version:
  "fetchTokenRanges exampleHost 4 False 3 deltaReply busyEngine = (busyEngine, Resolved (Some []))"
  by (simp add: fetchTokenRanges_def busyEngine_def)



text \<open>
  Claim C3, amended. The buffer requests an edit-delta, and decodes it against the cached
  previous result, only when the version of that result differs from the document's
  version read at the start of the pass (and the pass is not forced, an edit provider
  exists and the cached result has a result id). When the cached version equals the
  document's version no provider is asked at all: the cached spans, or the cached raw
  tokens decoded again, are used. In every other case a full request is issued.
\<close>

theorem edits_requested_against_older_version:
  "filter providerRequest (newActions st (fst (fetchTokenRanges h token forceFull version fo st))) =
     (case previousResults st of
        Some pr \<Rightarrow> if version = prev_version pr then [] else [requestIssued h forceFull st]
      | None \<Rightarrow> [requestIssued h forceFull st])
   \<and> (Provide_edits rid \<in> set (newActions st (fst (fetchTokenRanges h token forceFull version fo st))) \<longrightarrow>
        (case previousResults st of
           Some pr \<Rightarrow> prev_version pr \<noteq> version \<and> prev_resultId pr = Some rid
                        \<and> \<not> forceFull \<and> hasEditProvider h
         | None \<Rightarrow> False))
   \<and> (previousResults st = Some pr \<and> \<not> forceFull \<and> fullReply fo = Resolved (Delta newId edits)
        \<and> \<not> isCancellationRequested token
              (runEvents (fullReply_evs fo) (act (requestIssued h forceFull st) st)) \<longrightarrow>
        requestAllHighlights h token forceFull fo st =
          getTokenRangesWith h (fold spliceEdit edits (prev_tokens pr)) (fullLegend h)
            (isCancellationRequested token) (engineTicks (fullTicks fo))
            ((runEvents (fullReply_evs fo) (act (requestIssued h forceFull st) st))
               \<lparr>previousResults := Some \<lparr>prev_version = docVersion st, prev_resultId = newId,
                                           prev_tokens = fold spliceEdit edits (prev_tokens pr)\<rparr>\<rparr>))"
proof -
  let ?new = "newActions st (fst (fetchTokenRanges h token forceFull version fo st))"
  have 1: "filter providerRequest ?new =
     (case previousResults st of
        Some pr \<Rightarrow> if version = prev_version pr then [] else [requestIssued h forceFull st]
      | None \<Rightarrow> [requestIssued h forceFull st])"
    by (rule requests_when_fetching)
  have 2: "Provide_edits rid \<in> set ?new \<longrightarrow>
        (case previousResults st of
           Some pr \<Rightarrow> prev_version pr \<noteq> version \<and> prev_resultId pr = Some rid
                        \<and> \<not> forceFull \<and> hasEditProvider h
         | None \<Rightarrow> False)"
  proof
    assume "Provide_edits rid \<in> set ?new"
    then have "Provide_edits rid \<in> set (filter providerRequest ?new)"
      by (simp add: providerRequest_def)
    then show "case previousResults st of
           Some pr \<Rightarrow> prev_version pr \<noteq> version \<and> prev_resultId pr = Some rid
                        \<and> \<not> forceFull \<and> hasEditProvider h
         | None \<Rightarrow> False"
      unfolding 1
      by (auto simp: requestIssued_def truthy_def split: option.splits if_splits)
  qed
  have 3: "previousResults st = Some pr \<and> \<not> forceFull \<and> fullReply fo = Resolved (Delta newId edits)
        \<and> \<not> isCancellationRequested token
              (runEvents (fullReply_evs fo) (act (requestIssued h forceFull st) st)) \<longrightarrow>
        requestAllHighlights h token forceFull fo st =
          getTokenRangesWith h (fold spliceEdit edits (prev_tokens pr)) (fullLegend h)
            (isCancellationRequested token) (engineTicks (fullTicks fo))
            ((runEvents (fullReply_evs fo) (act (requestIssued h forceFull st) st))
               \<lparr>previousResults := Some \<lparr>prev_version = docVersion st, prev_resultId = newId,
                                           prev_tokens = fold spliceEdit edits (prev_tokens pr)\<rparr>\<rparr>)"
    using requestAllHighlights_delta by blast
  from 1 2 3 show ?thesis by blast
qed

theorem edits_requested_against_older_version_witness:
  "previousResults staleEngine
     = Some \<lparr>prev_version = 3, prev_resultId = Some ''r3'', prev_tokens = []\<rparr>
   \<and> docVersion staleEngine = 4
   \<and> filter providerRequest
        (newActions staleEngine (fst (fetchTokenRanges exampleHost 4 False 4 deltaReply staleEngine)))
       = [Provide_edits ''r3'']
   \<and> filter providerRequest
        (newActions staleEngine (fst (fetchTokenRanges exampleHost 4 True 4 deltaReply staleEngine)))
       = [Provide_full]
   \<and> filter providerRequest
        (newActions busyEngine (fst (fetchTokenRanges exampleHost 4 False 3 deltaReply busyEngine))) = []"
proof -
  have p: "previousResults staleEngine
     = Some \<lparr>prev_version = 3, prev_resultId = Some ''r3'', prev_tokens = []\<rparr>"
    "docVersion staleEngine = 4"
    "previousResults busyEngine
     = Some \<lparr>prev_version = 3, prev_resultId = Some ''r3'', prev_tokens = []\<rparr>"
    by (simp_all add: staleEngine_def busyEngine_def)
  have r: "requestIssued exampleHost False staleEngine = Provide_edits ''r3''"
    "requestIssued exampleHost True staleEngine = Provide_full"
    by (simp_all add: requestIssued_def p exampleHost_fields truthy_def)
  show ?thesis
    using p r
      edits_requested_against_older_version[of staleEngine exampleHost 4 False 4 deltaReply]
      edits_requested_against_older_version[of staleEngine exampleHost 4 True 4 deltaReply]
      edits_requested_against_older_version[of busyEngine exampleHost 4 False 3 deltaReply]
    by simp
qed

text \<open>
  Claim C3 as stated fails: the delta is requested with the result id of a previous
  result of version 3 and spliced into its tokens while the document is at version 4;
  and with the previous result at the document's version no request is issued at all.
\<close>

theorem edits_against_other_version_counterexample:
  "prev_version (the (previousResults staleEngine)) = 3
   \<and> docVersion staleEngine = 4
   \<and> newActions staleEngine
        (fst (fetchTokenRanges exampleHost 4 False (docVersion staleEngine) deltaReply staleEngine))
       = [Provide_edits ''r3'']
   \<and> previousResults
        (fst (fetchTokenRanges exampleHost 4 False (docVersion staleEngine) deltaReply staleEngine))
       = Some \<lparr>prev_version = 4, prev_resultId = Some ''r4'', prev_tokens = [0, 0, 5, 0, 0]\<rparr>
   \<and> newActions busyEngine
        (fst (fetchTokenRanges exampleHost 4 False (docVersion busyEngine) deltaReply busyEngine)) = []"
proof -
  have v: "docVersion staleEngine = 4" "docVersion busyEngine = 3" "trace staleEngine = []"
    "prev_version (the (previousResults staleEngine)) = 3"
    by (simp_all add: staleEngine_def busyEngine_def)
  show ?thesis
    by (simp add: v fetch_stale fetch_same_version newActions_def)
qed

section \<open>Two passes on the same version\<close>

lemma cancel_initialEngine: "cancel False (initialEngine h v) = (initialEngine h v)\<lparr>timer := None\<rparr>"
  by (simp add: cancel_def initialEngine_def regions_clear_def Let_def)

lemma quietPass_fields:
  "hiddenReply (quietPass r) = False" "hidden_evs (quietPass r) = []"
  "fullPass (quietPass r) = \<lparr>fullReply = Resolved r, fullReply_evs = [], fullTicks = []\<rparr>"
  "diffReply (quietPass r) = Some (HlDiff 1)" "diff_evs (quietPass r) = []"
  "apply_evs (quietPass r) = []" "regionsPass (quietPass r) = quietRegions"
  by (simp_all add: quietPass_def)

lemma first_pass:
  assumes "enabled h" "\<not> hasRangeProvider h" "fullLegend h = Some lg"
    "length (legendModifiers lg) \<le> 32" "length tokens mod 5 = 0" "exactRange tokens"
  shows "doHighlight h False False (quietPass (Tokens rid tokens)) (initialEngine h v) =
     (initialEngine h v)\<lparr>timer := None, tokenSource := Some 0, sources := 1,
        previousResults := Some \<lparr>prev_version = v, prev_resultId = rid, prev_tokens = tokens\<rparr>,
        highlightsCache := Some (v, referenceDecode h lg tokens),
        dirty := True, appliedVersion := Some v,
        trace := [Eval_hidden, Provide_full,
                  Diff_highlights (toHighlightItems h (referenceDecode h lg tokens) None) None,
                  Apply_diff (HlDiff 1) False, Fire_refresh]\<rparr>"
proof -
  have g: "getTokenRangesWith h tokens (Some lg) isC [] w
      = (w, Resolved (if isC w then None else Some (referenceDecode h lg tokens)))" for isC and w :: engine
    using getTokenRangesWith_no_ticks[OF assms(5,4,6), of h isC w] by (simp add: engineTicks_def)
  have i: "sources (initialEngine h v) = 0" "previousResults (initialEngine h v) = None"
    "cancelledSources (initialEngine h v) = []" "docVersion (initialEngine h v) = v"
    "dirty (initialEngine h v) = False" "trace (initialEngine h v) = []"
    by (simp_all add: initialEngine_def)
  show ?thesis
    using assms(1,2,3)
    apply (simp add: doHighlight_def cancel_initialEngine newSource_def quietPass_fields runEvents_Nil
        shouldRangeHighlight_def fetchTokenRanges_def requestAllHighlights_def sendRequest_def
        storeTokenRanges_def applyTokenRanges_def applyWholeDocument_def replyId_def g i
        engineTicks_def act_def isCancellationRequested_def Let_def)
    done
qed

lemma doHighlight_cached:
  assumes "enabled h" "previousResults st = Some pr" "prev_version pr = docVersion st"
    "highlightsCache st = Some (docVersion st, spans)" "hidden_evs orc = []" "\<not> hiddenReply orc"
  shows "doHighlight h forceFull False orc st =
     applyTokenRanges h (sources st) (docVersion st) (Some spans) orc
       (act Eval_hidden ((cancel False st)\<lparr>sources := Suc (sources st), tokenSource := Some (sources st)\<rparr>))"
proof -
  let ?st2 = "act Eval_hidden ((cancel False st)\<lparr>sources := Suc (sources st), tokenSource := Some (sources st)\<rparr>)"
  have f: "previousResults ?st2 = Some pr" "highlightsCache ?st2 = Some (docVersion st, spans)"
    "docVersion ?st2 = docVersion st"
    using assms by (simp_all add: act_fields cancel_False_fields)
  have s: "\<not> shouldRangeHighlight h ?st2" by (simp add: shouldRangeHighlight_def f)
  have fetch: "fetchTokenRanges h (sources st) forceFull (docVersion st) (fullPass orc) ?st2
      = (?st2, Resolved (Some spans))"
    using assms(3) by (simp add: fetchTokenRanges_def f)
  show ?thesis
    using assms(1,5,6) s fetch
    by (simp add: doHighlight_def newSource_def cancel_False_fields runEvents_Nil Let_def f
          applyTokenRanges_cancelled)
qed

lemma quiet_regionActions:
  "list_all (\<lambda>a. (regionAction a \<or> a = Visible_ranges) \<and> \<not> wholeDocumentDiff a) xs
     \<Longrightarrow> filter providerRequest xs = []"
  by (induction xs) (auto simp: regionAction_def providerRequest_def split: action.splits)

lemma quietlyExtends_act: "\<not> providerRequest a \<Longrightarrow> quietlyExtends st (act a st)"
  by (simp add: quietlyExtends_iff act_fields)

lemma quietlyExtends_applyTokenRanges:
  "quietlyExtends st (applyTokenRanges h token version r orc st)"
proof (cases r)
  case None
  then show ?thesis by (simp add: applyTokenRanges_None quietlyExtends_refl)
next
  case (Some spans)
  have w: "quietlyExtends st (applyWholeDocument h token version spans orc st)"
    unfolding quietlyExtends_iff trace_applyWholeDocument
    by (rule exI[of _ "Diff_highlights (toHighlightItems h spans None) None # eventActions (diff_evs orc) @
       (if isCancellationRequested token
             (runEvents (diff_evs orc) (act (Diff_highlights (toHighlightItems h spans None) None) st))
           \<or> diffReply orc = None
        then []
        else Apply_diff (the (diffReply orc)) False # eventActions (apply_evs orc) @ [Fire_refresh])"])
       (simp add: quiet_eventActions providerRequest_def)
  obtain xs where xs: "trace (highlightRegions h token False (regionsPass orc) (st\<lparr>regions := []\<rparr>))
       = trace (st\<lparr>regions := []\<rparr>) @ xs"
     "list_all (\<lambda>a. (regionAction a \<or> a = Visible_ranges) \<and> \<not> wholeDocumentDiff a) xs"
    using trace_highlightRegions by blast
  have v: "quietlyExtends st (applyVisibleRegions h token orc st)"
    unfolding quietlyExtends_iff
    by (rule exI[of _ "xs @ [Fire_refresh]"])
       (simp add: applyVisibleRegions_def regions_clear_def act_fields xs(1)
          quiet_regionActions[OF xs(2)] providerRequest_def)
  show ?thesis using Some w v by (simp add: applyTokenRanges_def quietlyExtends_refl)
qed

lemma pass_start:
  "quietlyExtends st (act Eval_hidden ((cancel False st)\<lparr>sources := n, tokenSource := t\<rparr>))"
  by (simp add: quietlyExtends_iff act_fields cancel_False_fields providerRequest_def)

lemma doHighlight_hidden:
  assumes "enabled h" "hidden_evs orc = []" "hiddenReply orc"
  shows "doHighlight h forceFull False orc st =
     act Eval_hidden ((cancel False st)\<lparr>sources := Suc (sources st), tokenSource := Some (sources st)\<rparr>)"
  using assms by (simp add: doHighlight_def newSource_def cancel_False_fields runEvents_Nil Let_def)

lemma second_pass_quiet:
  assumes "enabled h" "previousResults st = Some pr" "prev_version pr = docVersion st"
    "highlightsCache st = Some (docVersion st, spans)" "hidden_evs orc = []"
  shows "quietlyExtends st (doHighlight h forceFull False orc st)"
proof (cases "hiddenReply orc")
  case True
  then show ?thesis using doHighlight_hidden[OF assms(1,5)] pass_start by simp
next
  case False
  show ?thesis
    unfolding doHighlight_cached[OF assms False]
    by (rule quietlyExtends_trans[OF pass_start quietlyExtends_applyTokenRanges])
qed

lemma second_pass_regions:
  assumes "enabled h" "previousResults st = Some pr" "prev_version pr = docVersion st"
    "highlightsCache st = Some (docVersion st, spans)" "hidden_evs orc = []"
    "diff_evs orc = []" "apply_evs orc = []" "\<not> dirty st \<or> length spans < 200"
  shows "regions (doHighlight h forceFull False orc st) = []"
proof (cases "hiddenReply orc")
  case True
  then show ?thesis using doHighlight_hidden[OF assms(1,5)]
    by (simp add: act_fields cancel_False_fields)
next
  case False
  let ?st2 = "act Eval_hidden ((cancel False st)\<lparr>sources := Suc (sources st), tokenSource := Some (sources st)\<rparr>)"
  have r: "regions ?st2 = []" "dirty ?st2 = dirty st" by (simp_all add: act_fields cancel_False_fields)
  show ?thesis
    unfolding doHighlight_cached[OF assms(1-5) False]
    using assms(8) r regions_applyWholeDocument[OF assms(6,7)]
    by (auto simp: applyTokenRanges_def)
qed

lemma length_manyTokens: "length manyTokens = 1000"
  by (simp add: manyTokens_def length_concat sum_list_replicate)

lemma sum_list_manyTokens: "sum_list manyTokens = 400"
proof -
  have "sum_list (concat (replicate n [0, 1, 1, 0, 0 :: nat])) = 2 * n" for n
    by (induction n) simp_all
  then show ?thesis by (simp add: manyTokens_def)
qed

lemma exactRange_manyTokens: "exactRange manyTokens"
  by (rule exactRange_sum) (simp add: sum_list_manyTokens)

lemma first_pass_example:
  assumes "length tokens mod 5 = 0" "exactRange tokens"
  shows "doHighlight exampleHost False False (quietPass (Tokens rid tokens)) (initialEngine exampleHost v) =
     (initialEngine exampleHost v)\<lparr>timer := None, tokenSource := Some 0, sources := 1,
        previousResults := Some \<lparr>prev_version = v, prev_resultId = rid, prev_tokens = tokens\<rparr>,
        highlightsCache := Some (v, referenceDecode exampleHost exampleLegend tokens),
        dirty := True, appliedVersion := Some v,
        trace := [Eval_hidden, Provide_full,
                  Diff_highlights (toHighlightItems exampleHost (referenceDecode exampleHost exampleLegend tokens) None) None,
                  Apply_diff (HlDiff 1) False, Fire_refresh]\<rparr>"
  by (rule first_pass[OF exampleHost_fields(5,4,1) exampleLegend_narrow assms])

text \<open>
  Claim C5, amended. When a pass has left a decoded result cached for the document's
  version (the previous provider result and the decoded cache are both of that version),
  a further doHighlight with no document change in between issues no provider request:
  it reuses the cached spans. It empties the painted-region set when it starts and, when
  the buffer is not dirty or the cached result has fewer than 200 spans, ends with the
  set empty, so the set is the same at the end of both passes whenever the first pass
  ended with it empty.
\<close>

theorem second_pass_reuses_cache:
  assumes "enabled h" "previousResults st = Some pr" "prev_version pr = docVersion st"
    "highlightsCache st = Some (docVersion st, spans)" "hidden_evs orc = []"
  shows "filter providerRequest (newActions st (doHighlight h forceFull False orc st)) = []
   \<and> (\<not> hiddenReply orc \<longrightarrow>
        doHighlight h forceFull False orc st =
          applyTokenRanges h (sources st) (docVersion st) (Some spans) orc
            (act Eval_hidden
               ((cancel False st)\<lparr>sources := Suc (sources st), tokenSource := Some (sources st)\<rparr>)))
   \<and> (diff_evs orc = [] \<and> apply_evs orc = [] \<and> (\<not> dirty st \<or> length spans < 200) \<longrightarrow>
        regions (doHighlight h forceFull False orc st) = [])
   \<and> (diff_evs orc = [] \<and> apply_evs orc = [] \<and> (\<not> dirty st \<or> length spans < 200)
        \<and> regions st = [] \<longrightarrow>
        regions (doHighlight h forceFull False orc st) = regions st)"
  using second_pass_quiet[OF assms] doHighlight_cached[OF assms] second_pass_regions[OF assms]
  by (simp add: quietlyExtends_def)

text \<open>Two passes from a new buffer over one token.\<close>

theorem second_pass_reuses_cache_witness:
  "regions (doHighlight exampleHost False False (quietPass (Tokens (Some ''r1'') [0, 0, 5, 0, 0])) (initialEngine exampleHost 7)) = []
   \<and> regions (doHighlight exampleHost False False (quietPass (Tokens (Some ''r1'') [0, 0, 5, 0, 0]))
        (doHighlight exampleHost False False (quietPass (Tokens (Some ''r1'') [0, 0, 5, 0, 0])) (initialEngine exampleHost 7))) = []
   \<and> filter providerRequest
        (newActions (doHighlight exampleHost False False (quietPass (Tokens (Some ''r1'') [0, 0, 5, 0, 0])) (initialEngine exampleHost 7))
          (doHighlight exampleHost False False (quietPass (Tokens (Some ''r1'') [0, 0, 5, 0, 0]))
            (doHighlight exampleHost False False (quietPass (Tokens (Some ''r1'') [0, 0, 5, 0, 0])) (initialEngine exampleHost 7)))) = []"
proof -
  let ?orc = "quietPass (Tokens (Some ''r1'') [0, 0, 5, 0, 0])"
  let ?st1 = "doHighlight exampleHost False False ?orc (initialEngine exampleHost 7)"
  have st1: "?st1 = (initialEngine exampleHost 7)\<lparr>timer := None, tokenSource := Some 0, sources := 1,
        previousResults := Some \<lparr>prev_version = 7, prev_resultId = Some ''r1'', prev_tokens = [0, 0, 5, 0, 0]\<rparr>,
        highlightsCache := Some (7, [exampleSpan]),
        dirty := True, appliedVersion := Some 7,
        trace := [Eval_hidden, Provide_full,
                  Diff_highlights (toHighlightItems exampleHost [exampleSpan] None) None,
                  Apply_diff (HlDiff 1) False, Fire_refresh]\<rparr>"
    using first_pass_example[of "[0, 0, 5, 0, 0]" "Some ''r1''" 7, OF _ exactRange_example]
    by (simp add: referenceDecode_example)
  have a: "previousResults ?st1 = Some \<lparr>prev_version = 7, prev_resultId = Some ''r1'', prev_tokens = [0, 0, 5, 0, 0]\<rparr>"
    "highlightsCache ?st1 = Some (docVersion ?st1, [exampleSpan])" "regions ?st1 = []"
    "prev_version \<lparr>prev_version = 7, prev_resultId = Some ''r1'', prev_tokens = [0, 0, 5, 0, 0]\<rparr> = docVersion ?st1"
    unfolding st1 by (simp_all add: initialEngine_def)
  note T = second_pass_reuses_cache[OF exampleHost_fields(5) a(1) a(4) a(2)
        quietPass_fields(2)[of "Tokens (Some ''r1'') [0, 0, 5, 0, 0]"], of False]
  have c: "diff_evs ?orc = [] \<and> apply_evs ?orc = [] \<and> (\<not> dirty ?st1 \<or> length [exampleSpan] < 200)"
    by (simp add: quietPass_fields)
  have r2: "regions (doHighlight exampleHost False False ?orc ?st1) = []"
    using T c by blast
  have q: "filter providerRequest (newActions ?st1 (doHighlight exampleHost False False ?orc ?st1)) = []"
    using T by blast
  show ?thesis using a(3) r2 q by simp
qed

text \<open>
  Claim C5 as stated fails on the painted regions: with 200 spans the first pass from
  a new buffer applies the whole document, marks the buffer dirty and ends with no
  painted region; the second pass, on the same version and with the same answers,
  reuses the cache, takes the strategy by regions and ends with the region 0 to 70
  recorded as painted.
\<close>

theorem second_pass_paints_regions_counterexample:
  "regions (doHighlight exampleHost False False (quietPass (Tokens (Some ''r1'') manyTokens)) (initialEngine exampleHost 7)) = []
   \<and> regions (doHighlight exampleHost False False (quietPass (Tokens (Some ''r1'') manyTokens))
        (doHighlight exampleHost False False (quietPass (Tokens (Some ''r1'') manyTokens)) (initialEngine exampleHost 7)))
       = [(0, 70)]
   \<and> docVersion (doHighlight exampleHost False False (quietPass (Tokens (Some ''r1'') manyTokens)) (initialEngine exampleHost 7)) = 7"
proof -
  let ?orc = "quietPass (Tokens (Some ''r1'') manyTokens)"
  let ?spans = "referenceDecode exampleHost exampleLegend manyTokens"
  let ?st1 = "doHighlight exampleHost False False ?orc (initialEngine exampleHost 7)"
  have m: "length manyTokens mod 5 = 0" by (simp add: length_manyTokens)
  have n: "length ?spans = 200"
    by (simp add: referenceDecode_def length_cursorDecode length_groupsOf length_manyTokens)
  note st1 = first_pass_example[OF m exactRange_manyTokens, of "Some ''r1''" 7]
  have a: "previousResults ?st1 = Some \<lparr>prev_version = 7, prev_resultId = Some ''r1'', prev_tokens = manyTokens\<rparr>"
    "highlightsCache ?st1 = Some (docVersion ?st1, ?spans)" "regions ?st1 = []" "docVersion ?st1 = 7"
    "prev_version \<lparr>prev_version = 7, prev_resultId = Some ''r1'', prev_tokens = manyTokens\<rparr> = docVersion ?st1"
    "dirty ?st1" "sources ?st1 = 1" "cancelledSources ?st1 = []" "tokenSource ?st1 = Some 0"
    "rangeTokenSource ?st1 = None"
    unfolding st1 by (simp_all add: initialEngine_def)
  let ?st2 = "act Eval_hidden ((cancel False ?st1)\<lparr>sources := Suc (sources ?st1), tokenSource := Some (sources ?st1)\<rparr>)"
  have second: "doHighlight exampleHost False False ?orc ?st1
      = applyTokenRanges exampleHost (sources ?st1) (docVersion ?st1) (Some ?spans) ?orc ?st2"
    by (rule doHighlight_cached[OF exampleHost_fields(5) a(1) a(5) a(2)]) (simp_all add: quietPass_fields)
  have c: "set (cancelledSources (cancel False ?st1)) = {0}"
    by (simp add: cancel_cancelled a)
  have nc: "\<not> isCancellationRequested 1 (?st2\<lparr>regions := rs\<rparr>)" for rs
    by (simp add: isCancellationRequested_def act_fields c a)
  have nc2: "\<not> isCancellationRequested 1 ?st2"
    by (simp add: isCancellationRequested_def act_fields c a)
  have g: "get_highlights (?st2\<lparr>regions := []\<rparr>) = Some ?spans"
    by (simp add: get_highlights_def act_fields cancel_False_fields a)
  have merged: "mergeSpans (map (expandSpan exampleHost) [(10, 20), (30, 40)]) = [(0, 70)]"
    by (simp add: expandSpan_example_10 expandSpan_example_30 mergeSpans_two)
  have qr: "visibleRanges quietRegions = [(10, 20), (30, 40)]" "visibleRanges_evs quietRegions = []"
    "regionDiffs quietRegions = []"
    by (simp_all add: quietRegions_def)
  have hr: "regions (highlightRegions exampleHost 1 False quietRegions (?st2\<lparr>regions := []\<rparr>)) = [(0, 70)]"
    by (simp add: highlightRegions_def g qr merged Let_def runEvents_Nil act_fields
          regions_has_def regions_add_def isCancellationRequested_def c del: list.map)
  have X: "regions (applyTokenRanges exampleHost (sources ?st1) (docVersion ?st1) (Some ?spans) ?orc ?st2)
      = [(0, 70)]"
    using nc2 n a(6) hr
    by (simp add: applyTokenRanges_def applyVisibleRegions_def quietPass_fields act_fields
          cancel_False_fields regions_clear_def a(4,7))
  have final: "regions (doHighlight exampleHost False False ?orc ?st1) = [(0, 70)]"
    unfolding second by (rule X)
  from a(3) a(4) final show ?thesis by (intro conjI)
qed

section \<open>The handles of a reachable buffer\<close>

text \<open>
  The hypothesis of the property of the cursor's cancel holds in every state a buffer
  can reach: it holds initially, and the handlers, the events and the passes keep it.
\<close>

lemma keepsHandles_refl: "keepsHandles st st"
  by (simp add: keepsHandles_def)

lemma keepsHandles_trans: "keepsHandles a b \<Longrightarrow> keepsHandles b c \<Longrightarrow> keepsHandles a c"
  by (auto simp: keepsHandles_def)

lemma keepsHandles_fields:
  "keepsHandles st (st'\<lparr>previousResults := p\<rparr>) = keepsHandles st st'"
  "keepsHandles st (st'\<lparr>highlightsCache := c\<rparr>) = keepsHandles st st'"
  "keepsHandles st (st'\<lparr>timer := t\<rparr>) = keepsHandles st st'"
  "keepsHandles st (st'\<lparr>regions := r\<rparr>) = keepsHandles st st'"
  "keepsHandles st (st'\<lparr>dirty := d\<rparr>) = keepsHandles st st'"
  "keepsHandles st (st'\<lparr>appliedVersion := v\<rparr>) = keepsHandles st st'"
  "keepsHandles st (act a st') = keepsHandles st st'"
  "keepsHandles (st\<lparr>regions := r\<rparr>) st' = keepsHandles st st'"
  by (simp_all add: keepsHandles_def act_def)

lemma keepsHandles_cancel: "keepsHandles st (cancel rangeOnly st)"
  by (cases rangeOnly)
     (auto simp: keepsHandles_def cancel_True_fields cancel_False_fields cancel_cancelled cancel_disposed)

lemma keepsHandles_runEvent: "keepsHandles st (runEvent e st)"
  by (cases e) (simp_all add: keepsHandles_cancel clearHighlight_def abandonResult_def
        keepsHandles_fields keepsHandles_refl, simp add: keepsHandles_def)

lemma keepsHandles_runEvents: "keepsHandles st (runEvents evs st)"
proof (induction evs arbitrary: st)
  case Nil
  then show ?case by (simp add: runEvents_def keepsHandles_refl)
next
  case (Cons e evs)
  have "runEvents (e # evs) st = runEvents evs (runEvent e st)" by (simp add: runEvents_def)
  then show ?case
    using keepsHandles_trans[OF keepsHandles_runEvent Cons.IH] by simp
qed

lemma keepsHandles_after_events:
  "keepsHandles st st' \<Longrightarrow> keepsHandles st (runEvents evs st')"
  using keepsHandles_trans[OF _ keepsHandles_runEvents] by blast

lemma keepsHandles_getTokenRangesWith:
  "keepsHandles st (fst (getTokenRangesWith h tokens legend isC (engineTicks ticks) st))"
proof -
  have d: "keepsHandles w (fst (decodeLoop h lg isC (engineTicks ticks) w l c ts hs))" for w lg l c ts hs
    by (rule decodeLoop_rel[where R = keepsHandles, OF keepsHandles_refl keepsHandles_trans
          engineTicks_rel]) (simp_all add: keepsHandles_runEvents)
  have r: "keepsHandles st (resume (engineTicks ticks) st)"
    by (cases ticks) (auto simp: resume_def engineTicks_def keepsHandles_refl keepsHandles_runEvents
          split: option.splits)
  show ?thesis
  proof (cases legend)
    case None
    then show ?thesis using r by (simp add: getTokenRangesWith_def keepsHandles_refl)
  next
    case (Some lg)
    then show ?thesis using d[of st lg "Num 0" "Num 0" tokens "[]"]
      by (simp add: getTokenRangesWith_def getTokenRanges_def split_beta)
  qed
qed

lemma keepsHandles_decode_after:
  "keepsHandles st st' \<Longrightarrow>
   keepsHandles st (fst (getTokenRangesWith h tokens legend isC (engineTicks ticks) st'))"
  using keepsHandles_trans[OF _ keepsHandles_getTokenRangesWith] by blast

lemma keepsHandles_sendRequest:
  "keepsHandles st (fst sf) \<Longrightarrow> keepsHandles st (fst (sendRequest h token sf))"
proof -
  assume a: "keepsHandles st (fst sf)"
  obtain st' out where sf: "sf = (st', out)" by (cases sf)
  show ?thesis using a by (cases out) (auto simp: sf sendRequest_def keepsHandles_fields)
qed

lemma keepsHandles_requestAllHighlights:
  "keepsHandles st (fst (requestAllHighlights h token forceFull fo st))"
proof -
  let ?st2 = "runEvents (fullReply_evs fo) (act (requestIssued h forceFull st) st)"
  have 2: "keepsHandles st ?st2"
    by (rule keepsHandles_after_events) (simp add: keepsHandles_fields keepsHandles_refl)
  have 3: "keepsHandles st (fst (getTokenRangesWith h tokens legend isC (engineTicks ticks)
             (?st2\<lparr>previousResults := p\<rparr>)))" for tokens legend isC ticks p
    by (rule keepsHandles_decode_after) (simp add: keepsHandles_fields 2)
  show ?thesis
    unfolding requestAllHighlights_def Let_def act_requestIssued
    using 2 3 by (auto split: settled.splits reply.splits option.splits)
qed

lemma keepsHandles_storeTokenRanges:
  "keepsHandles st (storeTokenRanges version r st') = keepsHandles st st'"
  by (cases r) (simp_all add: storeTokenRanges_def keepsHandles_fields)

lemma keepsHandles_fetchTokenRanges:
  "keepsHandles st (fst (fetchTokenRanges h token forceFull version fo st))"
proof -
  have request: "keepsHandles st (storeTokenRanges v r
         (fst (sendRequest h token (requestAllHighlights h token forceFull fo st))))" for v r
    using keepsHandles_sendRequest[OF keepsHandles_requestAllHighlights]
    by (simp add: keepsHandles_storeTokenRanges)
  have cached: "keepsHandles st (storeTokenRanges v r
      (fst (getTokenRangesWith h tokens legend isC (engineTicks ticks) st)))"
    for v r tokens legend isC ticks
    by (simp add: keepsHandles_storeTokenRanges keepsHandles_getTokenRangesWith)
  show ?thesis
    unfolding fetchTokenRanges_def
    by (auto simp: request cached keepsHandles_getTokenRangesWith keepsHandles_refl split_beta
          split: option.splits prod.splits settled.splits)
qed

lemma keepsHandles_regionsLoop:
  "keepsHandles st (regionsLoop h token skipCheck spans ms answers st)"
proof (induction ms arbitrary: answers st)
  case Nil
  then show ?case by (simp add: keepsHandles_refl)
next
  case (Cons m ms)
  obtain start stop where m: "m = (start, stop)" by (cases m)
  show ?case
  proof (cases "\<not> skipCheck \<and> regions_has (regions st) start stop")
    case True
    then show ?thesis using Cons.IH by (simp add: m regionsLoop_skip del: regionsLoop.simps)
  next
    case False
    let ?st1 = "runEvents (case answers of [] \<Rightarrow> [] | d # _ \<Rightarrow> snd d)
                  (act (Diff_highlights (toHighlightItems h spans (Some (start, stop))) (Some (start, stop))) st)"
    let ?st3 = "case (case answers of [] \<Rightarrow> None | d # _ \<Rightarrow> fst d) of
                  Some d \<Rightarrow> act (Apply_diff d True) (?st1\<lparr>regions := regions_add (regions ?st1) start stop\<rparr>)
                | None \<Rightarrow> ?st1\<lparr>regions := regions_add (regions ?st1) start stop\<rparr>"
    have 1: "keepsHandles st ?st1"
      by (rule keepsHandles_after_events) (simp add: keepsHandles_fields keepsHandles_refl)
    have 3: "keepsHandles st ?st3"
      using 1 by (simp add: keepsHandles_fields split: option.splits)
    show ?thesis
      unfolding m regionsLoop_step[OF False] Let_def
      using 1 keepsHandles_trans[OF 3 Cons.IH] by simp
  qed
qed

lemma keepsHandles_highlightRegions:
  "keepsHandles st (highlightRegions h token skipCheck rg st)"
proof -
  let ?st1 = "runEvents (visibleRanges_evs rg) (act Visible_ranges st)"
  have 1: "keepsHandles st ?st1"
    by (rule keepsHandles_after_events) (simp add: keepsHandles_fields keepsHandles_refl)
  show ?thesis
    using 1 keepsHandles_trans[OF 1 keepsHandles_regionsLoop]
    by (auto simp: highlightRegions_def Let_def keepsHandles_refl split: option.splits)
qed

lemma keepsHandles_applyTokenRanges:
  "keepsHandles st (applyTokenRanges h token version r orc st)"
proof -
  have w: "keepsHandles st (applyWholeDocument h token version spans orc st)" for spans
  proof -
    let ?st1 = "runEvents (diff_evs orc) (act (Diff_highlights (toHighlightItems h spans None) None) st)"
    have 1: "keepsHandles st ?st1"
      by (rule keepsHandles_after_events) (simp add: keepsHandles_fields keepsHandles_refl)
    have 2: "keepsHandles st (runEvents (apply_evs orc)
               (act (Apply_diff (the (diffReply orc)) False) (?st1\<lparr>dirty := True, appliedVersion := Some version\<rparr>)))"
      by (rule keepsHandles_after_events) (simp add: keepsHandles_fields 1)
    show ?thesis using 1 2 by (simp add: applyWholeDocument_def Let_def keepsHandles_fields)
  qed
  have v: "keepsHandles st (applyVisibleRegions h token orc st)"
    using keepsHandles_highlightRegions[of "st\<lparr>regions := regions_clear\<rparr>" h token False "regionsPass orc"]
    by (simp add: applyVisibleRegions_def keepsHandles_fields)
  show ?thesis using w v
    by (simp add: applyTokenRanges_def keepsHandles_refl split: option.splits)
qed

lemma keepsHandles_requestRangeHighlights:
  "keepsHandles st (fst (requestRangeHighlights h token ro st))"
proof -
  let ?st1 = "runEvents (region_evs ro) (act Visible_range st)"
  have 1: "keepsHandles st ?st1"
    by (rule keepsHandles_after_events) (simp add: keepsHandles_fields keepsHandles_refl)
  have 2: "keepsHandles st (runEvents (rangeReply_evs ro) (act a ?st1))" for a
    by (rule keepsHandles_after_events) (simp add: keepsHandles_fields 1)
  have 3: "keepsHandles st (fst (getTokenRangesWith h tokens legend isC (engineTicks ticks)
             (runEvents (rangeReply_evs ro) (act a ?st1))))" for tokens legend isC ticks a
    by (rule keepsHandles_decode_after) (rule 2)
  show ?thesis
    unfolding requestRangeHighlights_def Let_def
    by (simp add: 1 2 3 split_beta split: settled.splits reply.splits option.splits)
qed

lemma keepsHandles_doRangeHighlight:
  "keepsHandles st (doRangeHighlight h token ro st)"
proof (cases "enabled h")
  case False
  then show ?thesis by (simp add: doRangeHighlight_def keepsHandles_refl)
next
  case True
  let ?st1 = "fst (sendRequest h token (requestRangeHighlights h token ro st))"
  have 1: "keepsHandles st ?st1"
    by (rule keepsHandles_sendRequest[OF keepsHandles_requestRangeHighlights])
  have 2: "keepsHandles st (runEvents evs (act a (?st1\<lparr>highlightsCache := c\<rparr>)))" for evs a c
    by (rule keepsHandles_after_events) (simp add: keepsHandles_fields 1)
  have 3: "keepsHandles st (runEvents evs (act a ?st1))" for evs a
    by (rule keepsHandles_after_events) (simp add: keepsHandles_fields 1)
  have 4: "keepsHandles st (runEvents evs' (act b (runEvents evs (act a (?st1\<lparr>highlightsCache := c\<rparr>)))))"
    for evs evs' a b c
    by (rule keepsHandles_after_events) (simp add: keepsHandles_fields 2)
  have 5: "keepsHandles st (runEvents evs' (act b (runEvents evs (act a ?st1))))" for evs evs' a b
    by (rule keepsHandles_after_events) (simp add: keepsHandles_fields 3)
  show ?thesis
    using True
    by (simp add: doRangeHighlight_def Let_def split_beta keepsHandles_fields 1 2 3 4 5
          split: option.splits)
qed

lemma handlesFresh_kept: "handlesFresh st \<Longrightarrow> keepsHandles st st' \<Longrightarrow> handlesFresh st'"
  by (auto simp: handlesFresh_def keepsHandles_def split: option.splits)

lemma handlesFresh_initialEngine: "handlesFresh (initialEngine h v)"
  by (simp add: handlesFresh_def initialEngine_def)

lemma handlesFresh_cancel: "handlesFresh st \<Longrightarrow> handlesFresh (cancel rangeOnly st)"
  by (rule handlesFresh_kept[OF _ keepsHandles_cancel])

lemma handlesFresh_runEvents: "handlesFresh st \<Longrightarrow> handlesFresh (runEvents evs st)"
  by (rule handlesFresh_kept[OF _ keepsHandles_runEvents])

lemma handlesFresh_new_full:
  "handlesFresh st \<Longrightarrow> handlesFresh ((snd (newSource st))\<lparr>tokenSource := Some (fst (newSource st))\<rparr>)"
  by (auto simp: handlesFresh_def newSource_def split: option.splits)

lemma handlesFresh_new_range:
  "handlesFresh st \<Longrightarrow> handlesFresh ((snd (newSource st))\<lparr>rangeTokenSource := Some (fst (newSource st))\<rparr>)"
  by (auto simp: handlesFresh_def newSource_def split: option.splits)

lemma handlesFresh_act: "handlesFresh (act a st) = handlesFresh st"
  by (auto simp: handlesFresh_def act_def split: option.splits)

lemma handlesFresh_doHighlight:
  assumes "handlesFresh st"
  shows "handlesFresh (doHighlight h forceFull onShown orc st)"
proof -
  let ?st0 = "cancel False st"
  let ?st1 = "(snd (newSource ?st0))\<lparr>tokenSource := Some (fst (newSource ?st0))\<rparr>"
  let ?st2 = "if onShown then ?st1 else runEvents (hidden_evs orc) (act Eval_hidden ?st1)"
  let ?st3 = "if shouldRangeHighlight h ?st2
              then doRangeHighlight h (fst (newSource ?st2)) (rangePass orc)
                     ((snd (newSource ?st2))\<lparr>rangeTokenSource := Some (fst (newSource ?st2))\<rparr>)
              else ?st2"
  have 0: "handlesFresh ?st0" by (rule handlesFresh_cancel[OF assms])
  have 1: "handlesFresh ?st1" by (rule handlesFresh_new_full[OF 0])
  have 2: "handlesFresh ?st2"
    using 1 handlesFresh_runEvents[of "act Eval_hidden ?st1" "hidden_evs orc"]
    by (simp add: handlesFresh_act)
  have 3: "handlesFresh ?st3"
    using 2 handlesFresh_kept[OF handlesFresh_new_range[OF 2] keepsHandles_doRangeHighlight]
    by simp
  have 4: "handlesFresh (fst (fetchTokenRanges h token forceFull version fo ?st3))" for token version fo
    by (rule handlesFresh_kept[OF 3 keepsHandles_fetchTokenRanges])
  have 6: "handlesFresh s \<Longrightarrow> handlesFresh (applyTokenRanges h token version r orc s)" for s token version r
    by (rule handlesFresh_kept[OF _ keepsHandles_applyTokenRanges])
  have 7: "handlesFresh (case fetchTokenRanges h token forceFull version fo ?st3 of
              (st4, Rejected e) \<Rightarrow> act Unhandled_rejection st4
            | (st4, Resolved tokenRanges) \<Rightarrow> applyTokenRanges h token version tokenRanges orc st4)"
    for token version fo
  proof -
    obtain s out where f: "fetchTokenRanges h token forceFull version fo ?st3 = (s, out)"
      by (cases "fetchTokenRanges h token forceFull version fo ?st3")
    have hs: "handlesFresh s" using 4[of token version fo] by (simp add: f)
    show ?thesis unfolding f by (cases out) (simp_all add: handlesFresh_act hs 6)
  qed
  have unf: "doHighlight h forceFull onShown orc st =
      (if \<not> enabled h then ?st0
       else if \<not> onShown \<and> (hiddenReply orc \<or> isCancellationRequested (fst (newSource ?st0)) ?st2)
            then ?st2
       else if shouldRangeHighlight h ?st2
               \<and> (isCancellationRequested (fst (newSource ?st0)) ?st3 \<or> rangeProviderOnly h)
            then ?st3
       else (case fetchTokenRanges h (fst (newSource ?st0)) forceFull (docVersion ?st3) (fullPass orc) ?st3 of
               (st4, Rejected e) \<Rightarrow> act Unhandled_rejection st4
             | (st4, Resolved tokenRanges) \<Rightarrow>
                 applyTokenRanges h (fst (newSource ?st0)) (docVersion ?st3) tokenRanges orc st4))"
    by (simp add: doHighlight_def Let_def)
  have ifs: "handlesFresh a \<Longrightarrow> handlesFresh b \<Longrightarrow> handlesFresh (if c then a else b)" for a b c
    by simp
  show ?thesis
    unfolding unf by (intro ifs 0 2 3 7)
qed

lemma handlesFresh_onCursorMoved:
  assumes "handlesFresh st"
  shows "handlesFresh (onCursorMoved h co st)"
proof -
  let ?st0 = "cancel True st"
  let ?st1 = "runEvents (wait_evs co) ((snd (newSource ?st0))\<lparr>rangeTokenSource := Some (fst (newSource ?st0))\<rparr>)"
  have 0: "handlesFresh ?st0" by (rule handlesFresh_cancel[OF assms])
  have 1: "handlesFresh ?st1" by (rule handlesFresh_runEvents[OF handlesFresh_new_range[OF 0]])
  have 2: "handlesFresh (doRangeHighlight h token ro ?st1)" for token ro
    by (rule handlesFresh_kept[OF 1 keepsHandles_doRangeHighlight])
  have 3: "handlesFresh (highlightRegions h token skipCheck rg ?st1)" for token skipCheck rg
    by (rule handlesFresh_kept[OF 1 keepsHandles_highlightRegions])
  show ?thesis
    unfolding onCursorMoved_def Let_def using 0 1 2 3 by simp
qed

section \<open>What a pass and a cursor movement do to the requests in flight\<close>

lemma superseded_kept: "superseded t own st \<Longrightarrow> keepsHandles st st' \<Longrightarrow> superseded t own st'"
  by (auto simp: superseded_def keepsHandles_def isCancellationRequested_def)

lemma superseded_new_range:
  "superseded t own st \<Longrightarrow> superseded t own ((snd (newSource st))\<lparr>rangeTokenSource := r\<rparr>)"
  by (simp add: superseded_def newSource_def isCancellationRequested_def)

lemma superseded_act: "superseded t own (act a st) = superseded t own st"
  by (simp add: superseded_def act_def isCancellationRequested_def)

lemma superseded_cancel:
  "tokenSource st = Some t \<Longrightarrow> superseded t own (cancel False st)"
  by (simp add: superseded_def isCancellationRequested_def cancel_cancelled cancel_disposed
        cancel_False_fields)

lemma superseded_new_full:
  "superseded t (sources st) st \<Longrightarrow>
   superseded t (sources st) ((snd (newSource st))\<lparr>tokenSource := Some (fst (newSource st))\<rparr>)"
  by (simp add: superseded_def newSource_def isCancellationRequested_def)

lemma doHighlight_supersedes:
  assumes "tokenSource st = Some t"
  shows "superseded t (sources st) (doHighlight h forceFull onShown orc st)"
proof -
  let ?S = "superseded t (sources st)"
  let ?st0 = "cancel False st"
  let ?st1 = "(snd (newSource ?st0))\<lparr>tokenSource := Some (fst (newSource ?st0))\<rparr>"
  let ?st2 = "if onShown then ?st1 else runEvents (hidden_evs orc) (act Eval_hidden ?st1)"
  let ?st3 = "if shouldRangeHighlight h ?st2
              then doRangeHighlight h (fst (newSource ?st2)) (rangePass orc)
                     ((snd (newSource ?st2))\<lparr>rangeTokenSource := Some (fst (newSource ?st2))\<rparr>)
              else ?st2"
  have 0: "?S ?st0" by (rule superseded_cancel[OF assms])
  have 1: "?S ?st1"
    using superseded_new_full[of t ?st0] 0 by (simp add: cancel_False_fields)
  have 2: "?S ?st2"
    using 1 superseded_kept[OF _ keepsHandles_runEvents, of t "sources st" "act Eval_hidden ?st1" "hidden_evs orc"]
    by (simp add: superseded_act)
  have 3: "?S ?st3"
    using 2 superseded_kept[OF superseded_new_range[OF 2] keepsHandles_doRangeHighlight]
    by simp
  have 4: "?S (fst (fetchTokenRanges h token forceFull version fo ?st3))" for token version fo
    by (rule superseded_kept[OF 3 keepsHandles_fetchTokenRanges])
  have 6: "?S s \<Longrightarrow> ?S (applyTokenRanges h token version r orc s)" for s token version r
    by (rule superseded_kept[OF _ keepsHandles_applyTokenRanges])
  have 7: "?S (case fetchTokenRanges h token forceFull version fo ?st3 of
              (st4, Rejected e) \<Rightarrow> act Unhandled_rejection st4
            | (st4, Resolved tokenRanges) \<Rightarrow> applyTokenRanges h token version tokenRanges orc st4)"
    for token version fo
  proof -
    obtain s out where f: "fetchTokenRanges h token forceFull version fo ?st3 = (s, out)"
      by (cases "fetchTokenRanges h token forceFull version fo ?st3")
    have hs: "?S s" using 4[of token version fo] by (simp add: f)
    show ?thesis unfolding f by (cases out) (simp_all add: superseded_act hs 6)
  qed
  have unf: "doHighlight h forceFull onShown orc st =
      (if \<not> enabled h then ?st0
       else if \<not> onShown \<and> (hiddenReply orc \<or> isCancellationRequested (fst (newSource ?st0)) ?st2)
            then ?st2
       else if shouldRangeHighlight h ?st2
               \<and> (isCancellationRequested (fst (newSource ?st0)) ?st3 \<or> rangeProviderOnly h)
            then ?st3
       else (case fetchTokenRanges h (fst (newSource ?st0)) forceFull (docVersion ?st3) (fullPass orc) ?st3 of
               (st4, Rejected e) \<Rightarrow> act Unhandled_rejection st4
             | (st4, Resolved tokenRanges) \<Rightarrow>
                 applyTokenRanges h (fst (newSource ?st0)) (docVersion ?st3) tokenRanges orc st4))"
    by (simp add: doHighlight_def Let_def)
  have ifs: "?S a \<Longrightarrow> ?S b \<Longrightarrow> ?S (if c then a else b)" for a b c
    by simp
  show ?thesis
    unfolding unf by (intro ifs 0 2 3 7)
qed

text \<open>
  Whatever runs meanwhile, a cursor movement withdraws no cancellation (what its first
  step has cancelled and disposed stays so) and puts no other source in the full handle.
\<close>

lemma onCursorMoved_grows:
  "set (cancelledSources (cancel True st)) \<subseteq> set (cancelledSources (onCursorMoved h co st))
   \<and> set (disposedSources (cancel True st)) \<subseteq> set (disposedSources (onCursorMoved h co st))
   \<and> (tokenSource (onCursorMoved h co st) = tokenSource st \<or> tokenSource (onCursorMoved h co st) = None)"
proof -
  let ?G = "\<lambda>s. set (cancelledSources (cancel True st)) \<subseteq> set (cancelledSources s)
               \<and> set (disposedSources (cancel True st)) \<subseteq> set (disposedSources s)
               \<and> (tokenSource s = tokenSource st \<or> tokenSource s = None)"
  let ?st0 = "cancel True st"
  let ?st1 = "runEvents (wait_evs co) ((snd (newSource ?st0))\<lparr>rangeTokenSource := Some (fst (newSource ?st0))\<rparr>)"
  have k: "?G s \<Longrightarrow> keepsHandles s s' \<Longrightarrow> ?G s'" for s s'
    by (auto simp: keepsHandles_def)
  have 0: "?G ?st0" by (simp add: cancel_True_fields)
  have n: "?G ((snd (newSource ?st0))\<lparr>rangeTokenSource := Some (fst (newSource ?st0))\<rparr>)"
    by (simp add: newSource_def cancel_True_fields)
  have 1: "?G ?st1" by (rule k[OF n keepsHandles_runEvents])
  have 2: "?G (doRangeHighlight h token ro ?st1)" for token ro
    by (rule k[OF 1 keepsHandles_doRangeHighlight])
  have 3: "?G (highlightRegions h token skipCheck rg ?st1)" for token skipCheck rg
    by (rule k[OF 1 keepsHandles_highlightRegions])
  show ?thesis
    unfolding onCursorMoved_def Let_def using 0 1 2 3 by simp
qed

text \<open>
  When no other handler runs during a cursor movement, the requests are the same after
  each of its steps.
\<close>

lemma sameRequests_refl: "sameRequests st st"
  by (simp add: sameRequests_def)

lemma sameRequests_trans: "sameRequests a b \<Longrightarrow> sameRequests b c \<Longrightarrow> sameRequests a c"
  by (simp add: sameRequests_def)

lemma sameRequests_fields:
  "sameRequests st (st'\<lparr>highlightsCache := c\<rparr>) = sameRequests st st'"
  "sameRequests st (st'\<lparr>timer := t\<rparr>) = sameRequests st st'"
  "sameRequests st (st'\<lparr>regions := r\<rparr>) = sameRequests st st'"
  "sameRequests st (st'\<lparr>dirty := d\<rparr>) = sameRequests st st'"
  "sameRequests st (st'\<lparr>appliedVersion := v\<rparr>) = sameRequests st st'"
  "sameRequests st (act a st') = sameRequests st st'"
  by (simp_all add: sameRequests_def act_def)

lemma quietTicks_rel:
  assumes "quietTicks ticks" and "\<And>w. R w w"
  shows "list_all (\<lambda>t. case t of None \<Rightarrow> True | Some f \<Rightarrow> (\<forall>w. R w (f w))) (engineTicks ticks)"
  using assms
  by (induction ticks) (auto simp: engineTicks_def quietTicks_def runEvents_Nil split: option.splits)

lemma sameRequests_getTokenRangesWith:
  assumes "quietTicks ticks"
  shows "sameRequests st (fst (getTokenRangesWith h tokens legend isC (engineTicks ticks) st))"
proof -
  have d: "sameRequests w (fst (decodeLoop h lg isC (engineTicks ticks) w l c ts hs))" for w lg l c ts hs
    by (rule decodeLoop_rel[where R = sameRequests, OF sameRequests_refl sameRequests_trans
          quietTicks_rel[OF assms]]) (simp_all add: sameRequests_refl)
  have r: "sameRequests st (resume (engineTicks ticks) st)"
    using assms
    by (cases ticks) (auto simp: resume_def engineTicks_def quietTicks_def sameRequests_refl runEvents_Nil
          split: option.splits)
  show ?thesis
  proof (cases legend)
    case None
    then show ?thesis using r by (simp add: getTokenRangesWith_def sameRequests_refl)
  next
    case (Some lg)
    then show ?thesis using d[of st lg "Num 0" "Num 0" tokens "[]"]
      by (simp add: getTokenRangesWith_def getTokenRanges_def split_beta)
  qed
qed

lemma sameRequests_sendRequest:
  "sameRequests st (fst sf) \<Longrightarrow> sameRequests st (fst (sendRequest h token sf))"
proof -
  assume a: "sameRequests st (fst sf)"
  obtain st' out where sf: "sf = (st', out)" by (cases sf)
  show ?thesis using a by (cases out) (auto simp: sf sendRequest_def sameRequests_fields)
qed

lemma sameRequests_requestRangeHighlights:
  assumes "undisturbedRange ro"
  shows "sameRequests st (fst (requestRangeHighlights h token ro st))"
proof -
  have q: "region_evs ro = []" "rangeReply_evs ro = []" "quietTicks (rangeTicks ro)"
    using assms by (simp_all add: undisturbedRange_def)
  have 3: "sameRequests st (fst (getTokenRangesWith h tokens legend isC (engineTicks (rangeTicks ro))
             (act a (act b st))))" for tokens legend isC a b
    by (rule sameRequests_trans[OF _ sameRequests_getTokenRangesWith[OF q(3)]])
       (simp add: sameRequests_fields sameRequests_refl)
  show ?thesis
    unfolding requestRangeHighlights_def Let_def
    by (simp add: q runEvents_Nil 3 sameRequests_fields sameRequests_refl split_beta
          split: settled.splits reply.splits option.splits)
qed

lemma sameRequests_doRangeHighlight:
  assumes "undisturbedRange ro"
  shows "sameRequests st (doRangeHighlight h token ro st)"
proof (cases "enabled h")
  case False
  then show ?thesis by (simp add: doRangeHighlight_def sameRequests_refl)
next
  case True
  have q: "rangeDiff_evs ro = []" "rangeApply_evs ro = []"
    using assms by (simp_all add: undisturbedRange_def)
  let ?st1 = "fst (sendRequest h token (requestRangeHighlights h token ro st))"
  have 1: "sameRequests st ?st1"
    by (rule sameRequests_sendRequest[OF sameRequests_requestRangeHighlights[OF assms]])
  show ?thesis
    using True
    by (simp add: doRangeHighlight_def Let_def split_beta q runEvents_Nil sameRequests_fields 1
          split: option.splits)
qed

lemma sameRequests_regionsLoop:
  assumes "quiet answers"
  shows "sameRequests st (regionsLoop h token skipCheck spans ms answers st)"
  using assms
proof (induction ms arbitrary: answers st)
  case Nil
  then show ?case by (simp add: sameRequests_refl)
next
  case (Cons m ms)
  obtain start stop where m: "m = (start, stop)" by (cases m)
  show ?case
  proof (cases "\<not> skipCheck \<and> regions_has (regions st) start stop")
    case True
    then show ?thesis using Cons.IH[OF Cons.prems] by (simp add: m regionsLoop_skip del: regionsLoop.simps)
  next
    case False
    have e: "(case answers of [] \<Rightarrow> [] | d # _ \<Rightarrow> snd d) = []"
      using Cons.prems by (cases answers) (simp_all add: quiet_def)
    have t: "quiet (tl answers)"
      using Cons.prems by (cases answers) (simp_all add: quiet_def)
    let ?st1 = "act (Diff_highlights (toHighlightItems h spans (Some (start, stop))) (Some (start, stop))) st"
    let ?st3 = "case (case answers of [] \<Rightarrow> None | d # _ \<Rightarrow> fst d) of
                  Some d \<Rightarrow> act (Apply_diff d True) (?st1\<lparr>regions := regions_add (regions ?st1) start stop\<rparr>)
                | None \<Rightarrow> ?st1\<lparr>regions := regions_add (regions ?st1) start stop\<rparr>"
    have 1: "sameRequests st ?st1"
      by (simp add: sameRequests_fields sameRequests_refl)
    have 3: "sameRequests st ?st3"
      using 1 by (simp add: sameRequests_fields split: option.splits)
    show ?thesis
      unfolding m regionsLoop_step[OF False] Let_def e runEvents_Nil
      using 1 sameRequests_trans[OF 3 Cons.IH[OF t]] by simp
  qed
qed

lemma sameRequests_highlightRegions:
  assumes "undisturbedRegions rg"
  shows "sameRequests st (highlightRegions h token skipCheck rg st)"
proof -
  have q: "visibleRanges_evs rg = []" "quiet (regionDiffs rg)"
    using assms by (simp_all add: undisturbedRegions_def)
  let ?st1 = "act Visible_ranges st"
  have 1: "sameRequests st ?st1"
    by (simp add: sameRequests_fields sameRequests_refl)
  show ?thesis
    using 1 sameRequests_trans[OF 1 sameRequests_regionsLoop[OF q(2)]]
    by (auto simp: highlightRegions_def Let_def q(1) runEvents_Nil sameRequests_refl split: option.splits)
qed

lemma onCursorMoved_undisturbed:
  assumes "undisturbed co"
  shows "tokenSource (onCursorMoved h co st) = tokenSource st
   \<and> cancelledSources (onCursorMoved h co st) = cancelledSources (cancel True st)
   \<and> disposedSources (onCursorMoved h co st) = disposedSources (cancel True st)
   \<and> previousResults (onCursorMoved h co st) = previousResults st"
proof -
  let ?F = "\<lambda>s. tokenSource s = tokenSource st
               \<and> cancelledSources s = cancelledSources (cancel True st)
               \<and> disposedSources s = disposedSources (cancel True st)
               \<and> previousResults s = previousResults st"
  let ?st0 = "cancel True st"
  let ?st1 = "(snd (newSource ?st0))\<lparr>rangeTokenSource := Some (fst (newSource ?st0))\<rparr>"
  have q: "wait_evs co = []" "undisturbedRange (cursorRange co)" "undisturbedRegions (cursorRegions co)"
    using assms by (simp_all add: undisturbed_def)
  have k: "?F s \<Longrightarrow> sameRequests s s' \<Longrightarrow> ?F s'" for s s'
    by (simp add: sameRequests_def)
  have 0: "?F ?st0" by (simp add: cancel_True_fields)
  have 1: "?F ?st1" by (simp add: newSource_def cancel_True_fields)
  have 2: "?F (doRangeHighlight h token (cursorRange co) ?st1)" for token
    by (rule k[OF 1 sameRequests_doRangeHighlight[OF q(2)]])
  have 3: "?F (highlightRegions h token skipCheck (cursorRegions co) ?st1)" for token skipCheck
    by (rule k[OF 1 sameRequests_highlightRegions[OF q(3)]])
  show ?thesis
    unfolding onCursorMoved_def Let_def q(1) runEvents_Nil using 0 1 2 3 by simp
qed

section \<open>Cursor movements and full passes\<close>

text \<open>
  Claim C9. A cursor movement cancels and disposes the range handle only. After its
  first step (\<^verbatim>\<open>cancel(true)\<close>) the full handle is the same source as before and is
  neither cancelled nor disposed by it, and the decoded cache, the previous provider
  result and the painted-region set are unchanged. So does the handler as a whole:
  whatever runs at its suspension points, the range handle it found is cancelled and
  disposed when onCursorMoved returns and the full handle is the one it found or null;
  and when no other handler runs meanwhile, the full handle, whether its source is
  cancelled or disposed, and the previous provider result are then what they were, so a
  full request in flight is left to complete. A full pass
  cancels and disposes the full request in flight: its first step does, and whatever
  runs at its suspension points, when doHighlight returns the source it found is
  cancelled and disposed and the full handle is null or the source the pass created for
  itself, which is another one.
\<close>

theorem cursor_cancels_range_only:
  assumes "handlesFresh st"
  shows "rangeTokenSource (cancel True st) = None
   \<and> set_option (rangeTokenSource st)
        \<subseteq> set (cancelledSources (cancel True st)) \<inter> set (disposedSources (cancel True st))
   \<and> tokenSource (cancel True st) = tokenSource st
   \<and> (case tokenSource st of
         Some t \<Rightarrow> isCancellationRequested t (cancel True st) = isCancellationRequested t st
                   \<and> (t \<in> set (disposedSources (cancel True st))) = (t \<in> set (disposedSources st))
       | None \<Rightarrow> True)
   \<and> highlightsCache (cancel True st) = highlightsCache st
   \<and> previousResults (cancel True st) = previousResults st
   \<and> regions (cancel True st) = regions st
   \<and> onCursorMoved h co st = onCursorMoved h co (cancel True st)
   \<and> set_option (rangeTokenSource st)
        \<subseteq> set (cancelledSources (onCursorMoved h co st)) \<inter> set (disposedSources (onCursorMoved h co st))
   \<and> (tokenSource (onCursorMoved h co st) = tokenSource st \<or> tokenSource (onCursorMoved h co st) = None)
   \<and> (undisturbed co \<longrightarrow>
        tokenSource (onCursorMoved h co st) = tokenSource st
        \<and> previousResults (onCursorMoved h co st) = previousResults st
        \<and> (case tokenSource st of
              Some t \<Rightarrow>
                isCancellationRequested t (onCursorMoved h co st) = isCancellationRequested t st
                \<and> (t \<in> set (disposedSources (onCursorMoved h co st))) = (t \<in> set (disposedSources st))
            | None \<Rightarrow> True))
   \<and> (case tokenSource st of
         Some t \<Rightarrow> isCancellationRequested t (cancel False st) \<and> t \<in> set (disposedSources (cancel False st))
                   \<and> fst (newSource (cancel False st)) \<noteq> t
       | None \<Rightarrow> True)
   \<and> doHighlight h forceFull onShown orc st = doHighlight h forceFull onShown orc (cancel False st)
   \<and> (case tokenSource st of
         Some t \<Rightarrow>
           isCancellationRequested t (doHighlight h forceFull onShown orc st)
           \<and> t \<in> set (disposedSources (doHighlight h forceFull onShown orc st))
           \<and> (tokenSource (doHighlight h forceFull onShown orc st) = None
                \<or> tokenSource (doHighlight h forceFull onShown orc st) = Some (sources st))
           \<and> tokenSource (doHighlight h forceFull onShown orc st) \<noteq> Some t
       | None \<Rightarrow> True)"
proof -
  have A: "rangeTokenSource (cancel True st) = None
   \<and> set_option (rangeTokenSource st)
        \<subseteq> set (cancelledSources (cancel True st)) \<inter> set (disposedSources (cancel True st))
   \<and> tokenSource (cancel True st) = tokenSource st
   \<and> (case tokenSource st of
         Some t \<Rightarrow> isCancellationRequested t (cancel True st) = isCancellationRequested t st
                   \<and> (t \<in> set (disposedSources (cancel True st))) = (t \<in> set (disposedSources st))
       | None \<Rightarrow> True)
   \<and> highlightsCache (cancel True st) = highlightsCache st
   \<and> previousResults (cancel True st) = previousResults st
   \<and> regions (cancel True st) = regions st
   \<and> onCursorMoved h co st = onCursorMoved h co (cancel True st)"
    using assms
    by (auto simp: cancel_True_fields cancel_cancelled cancel_disposed
          onCursorMoved_starts_with_cancel handlesFresh_def isCancellationRequested_def
          split: option.splits)
  have B: "set_option (rangeTokenSource st)
        \<subseteq> set (cancelledSources (onCursorMoved h co st)) \<inter> set (disposedSources (onCursorMoved h co st))
     \<and> (tokenSource (onCursorMoved h co st) = tokenSource st \<or> tokenSource (onCursorMoved h co st) = None)"
    using onCursorMoved_grows[of st h co] cancel_cancelled[of True st] cancel_disposed[of True st]
    by auto
  have C: "undisturbed co \<longrightarrow>
        tokenSource (onCursorMoved h co st) = tokenSource st
        \<and> previousResults (onCursorMoved h co st) = previousResults st
        \<and> (case tokenSource st of
              Some t \<Rightarrow>
                isCancellationRequested t (onCursorMoved h co st) = isCancellationRequested t st
                \<and> (t \<in> set (disposedSources (onCursorMoved h co st))) = (t \<in> set (disposedSources st))
            | None \<Rightarrow> True)"
  proof
    assume u: "undisturbed co"
    note U = onCursorMoved_undisturbed[OF u, of h st]
    have "isCancellationRequested t (onCursorMoved h co st) = isCancellationRequested t st
          \<and> (t \<in> set (disposedSources (onCursorMoved h co st))) = (t \<in> set (disposedSources st))"
      if "tokenSource st = Some t" for t
      using assms that U cancel_cancelled[of True st] cancel_disposed[of True st]
      by (auto simp: isCancellationRequested_def handlesFresh_def split: option.splits)
    then show "tokenSource (onCursorMoved h co st) = tokenSource st
        \<and> previousResults (onCursorMoved h co st) = previousResults st
        \<and> (case tokenSource st of
              Some t \<Rightarrow>
                isCancellationRequested t (onCursorMoved h co st) = isCancellationRequested t st
                \<and> (t \<in> set (disposedSources (onCursorMoved h co st))) = (t \<in> set (disposedSources st))
            | None \<Rightarrow> True)"
      using U by (simp split: option.splits)
  qed
  have D: "(case tokenSource st of
         Some t \<Rightarrow> isCancellationRequested t (cancel False st) \<and> t \<in> set (disposedSources (cancel False st))
                   \<and> fst (newSource (cancel False st)) \<noteq> t
       | None \<Rightarrow> True)
   \<and> doHighlight h forceFull onShown orc st = doHighlight h forceFull onShown orc (cancel False st)"
    using assms
    by (auto simp: cancel_False_fields cancel_cancelled cancel_disposed
          doHighlight_starts_with_cancel handlesFresh_def isCancellationRequested_def newSource_def
          split: option.splits)
  have E: "case tokenSource st of
         Some t \<Rightarrow>
           isCancellationRequested t (doHighlight h forceFull onShown orc st)
           \<and> t \<in> set (disposedSources (doHighlight h forceFull onShown orc st))
           \<and> (tokenSource (doHighlight h forceFull onShown orc st) = None
                \<or> tokenSource (doHighlight h forceFull onShown orc st) = Some (sources st))
           \<and> tokenSource (doHighlight h forceFull onShown orc st) \<noteq> Some t
       | None \<Rightarrow> True"
  proof (cases "tokenSource st")
    case None
    then show ?thesis by simp
  next
    case (Some t)
    have "t < sources st" using assms Some by (simp add: handlesFresh_def)
    then show ?thesis
      using doHighlight_supersedes[OF Some, of h forceFull onShown orc] Some
      by (auto simp: superseded_def)
  qed
  from A B C D E show ?thesis by (elim conjE) (intro conjI; assumption)
qed

text \<open>
  With a full pass (source 4) and a range pass (source 5) in flight: the cursor
  movement cancels source 5 and leaves source 4 alone, the full pass cancels and
  disposes source 4.
\<close>

theorem cursor_cancels_range_only_witness:
  "handlesFresh busyEngine
   \<and> undisturbed quietCursor
   \<and> cancel True busyEngine =
       busyEngine\<lparr>rangeTokenSource := None, cancelledSources := [5, 0, 1, 2, 3],
                  disposedSources := [5, 0, 1, 2, 3]\<rparr>
   \<and> tokenSource (cancel True busyEngine) = Some 4
   \<and> \<not> isCancellationRequested 4 (cancel True busyEngine)
   \<and> isCancellationRequested 4 (cancel False busyEngine)
   \<and> tokenSource (onCursorMoved exampleHost quietCursor busyEngine) = Some 4
   \<and> \<not> isCancellationRequested 4 (onCursorMoved exampleHost quietCursor busyEngine)
   \<and> 4 \<notin> set (disposedSources (onCursorMoved exampleHost quietCursor busyEngine))
   \<and> isCancellationRequested 5 (onCursorMoved exampleHost quietCursor busyEngine)
   \<and> isCancellationRequested 4 (doHighlight exampleHost False False (quietPass NoResult) busyEngine)
   \<and> 4 \<in> set (disposedSources (doHighlight exampleHost False False (quietPass NoResult) busyEngine))
   \<and> tokenSource (doHighlight exampleHost False False (quietPass NoResult) busyEngine) \<noteq> Some 4"
proof -
  have f: "handlesFresh busyEngine" by (simp add: handlesFresh_def busyEngine_def)
  have u: "undisturbed quietCursor"
    by (simp add: undisturbed_def undisturbedRange_def undisturbedRegions_def quietCursor_def
          quietRange_def quietRegions_def quietTicks_def quiet_def)
  have c: "cancel True busyEngine =
       busyEngine\<lparr>rangeTokenSource := None, cancelledSources := [5, 0, 1, 2, 3],
                  disposedSources := [5, 0, 1, 2, 3]\<rparr>"
    by (simp add: cancel_def cancelAndDispose_def busyEngine_def Let_def)
  have t: "tokenSource busyEngine = Some 4" "rangeTokenSource busyEngine = Some 5"
    "4 \<notin> set (cancelledSources busyEngine)" "4 \<notin> set (disposedSources busyEngine)"
    by (simp_all add: busyEngine_def)
  note T = cursor_cancels_range_only[OF f, where h = exampleHost and co = quietCursor
      and forceFull = False and onShown = False and orc = "quietPass NoResult"]
  have 1: "tokenSource (cancel True busyEngine) = Some 4"
    "\<not> isCancellationRequested 4 (cancel True busyEngine)"
    "isCancellationRequested 4 (cancel False busyEngine)"
    using t T by (simp_all add: isCancellationRequested_def onCursorMoved_starts_with_cancel
          doHighlight_starts_with_cancel)
  have 2: "tokenSource (onCursorMoved exampleHost quietCursor busyEngine) = Some 4"
    "\<not> isCancellationRequested 4 (onCursorMoved exampleHost quietCursor busyEngine)"
    "4 \<notin> set (disposedSources (onCursorMoved exampleHost quietCursor busyEngine))"
    "isCancellationRequested 5 (onCursorMoved exampleHost quietCursor busyEngine)"
    using t u T by (simp_all add: isCancellationRequested_def onCursorMoved_starts_with_cancel
          doHighlight_starts_with_cancel)
  have 3: "isCancellationRequested 4 (doHighlight exampleHost False False (quietPass NoResult) busyEngine)"
    "4 \<in> set (disposedSources (doHighlight exampleHost False False (quietPass NoResult) busyEngine))"
    "tokenSource (doHighlight exampleHost False False (quietPass NoResult) busyEngine) \<noteq> Some 4"
    using t T by (simp_all add: isCancellationRequested_def onCursorMoved_starts_with_cancel
          doHighlight_starts_with_cancel)
  from f u c 1 2 3 show ?thesis by (intro conjI)
qed

end
